theory Spec2Isabelle
  imports Main "HOL-Library.Sublist"
begin

section \<open>The service fleet orchestrator of test/startservers.py and test/helpers.py\<close>

text \<open>
  The orchestrator is a Python module with two globals (\<open>processes\<close> and
  \<open>challSrvProcess\<close>) and functions that spawn, poll, signal and wait for operating
  system processes. The embedding passes the two globals explicitly in a record, together
  with the list of every effect performed so far (\<open>trace\<close>). What the operating system
  answers to a primitive is not decided by the program: it is read from a \<open>world\<close>,
  a record of functions from the history of effects to an outcome. A theorem that holds for
  every \<open>world\<close> holds for every behaviour of the spawn, poll, signal, wait and connect
  primitives.
\<close>

subsection \<open>Data\<close>

text \<open>\<open>Service = collections.namedtuple('Service', ('name', 'debug_port', 'grpc_addr', 'cmd', 'deps'))\<close>.
  \<open>grpc_addr\<close> and \<open>deps\<close> are \<open>None\<close> or a value.\<close>

datatype Service = Service
  (name: string) (debug_port: nat) (grpc_addr: "string option")
  (cmd: "string list") (deps: "string list option")

text \<open>A Python dict of strings (\<open>os.environ\<close>).\<close>

type_synonym env = "string \<rightharpoonup> string"

text \<open>The exceptions the module raises or lets through. The message of the time-out
  exception is a format of the port and the program name; it is kept as its arguments.\<close>

datatype exn =
    Exception string
  | TimedOut nat string
  | SocketError nat
  | CalledProcessError int
  | OSError
  | TypeError

text \<open>Lines written by \<open>print\<close>, kept as the format and its arguments.\<close>

datatype printed =
    StartingService string
  | ErrorStartingService string exn
  | AllServersRunning
  | ExitedEarlyHeader
  | ExitedEarly "string list" nat int
  | WaitingForDebugPort nat string
  | UnsatisfiedHeader
  | Unsatisfied string "string list option"

text \<open>The effects, each with the outcome the operating system gave. Processes are named by
  their pid, ports by their number, a sleep by its length in milliseconds.\<close>

datatype event =
    EvSignalHandler string
  | EvPopen "string list" env "exn + nat"
  | EvPoll nat "int option"
  | EvSendSignal nat "exn option"
  | EvWait nat "exn + int"
  | EvSleep nat
  | EvConnect nat "nat option"
  | EvClose nat
  | EvCheckCall "string list" "exn + int"
  | EvPrint printed

text \<open>The handle returned by \<open>subprocess.Popen\<close>, with the attribute \<open>cmd\<close> that
  \<open>run\<close> adds to it (named \<open>popen_cmd\<close> here, \<open>cmd\<close> being the field of
  \<open>Service\<close>). The handle's cached \<open>returncode\<close> is not a field: every poll asks the
  world.\<close>

record Popen =
  pid :: nat
  args :: "string list"
  popen_cmd :: "string list"

record world =
  environ :: env
  config_dir :: string
  Popen_outcome :: "event list \<Rightarrow> string list \<Rightarrow> env \<Rightarrow> exn + nat"
  poll_outcome :: "event list \<Rightarrow> nat \<Rightarrow> int option"
  send_signal_outcome :: "event list \<Rightarrow> nat \<Rightarrow> exn option"
  wait_outcome :: "event list \<Rightarrow> nat \<Rightarrow> exn + int"
  connect_outcome :: "event list \<Rightarrow> nat \<Rightarrow> nat option"
  check_call_outcome :: "event list \<Rightarrow> string list \<Rightarrow> exn + int"

record state =
  processes :: "Popen list"
  challSrvProcess :: "Popen option"
  trace :: "event list"

definition emit :: "event \<Rightarrow> state \<Rightarrow> state" where
  "emit e s = s\<lparr>trace := trace s @ [e]\<rparr>"

subsection \<open>The process supervisor: \<open>run\<close>\<close>

text \<open>\<open>dict.setdefault(k, v)\<close>: stores \<open>v\<close> only where \<open>k\<close> has no value yet.\<close>

definition setdefault :: "env \<Rightarrow> string \<Rightarrow> string \<Rightarrow> env" where
  "setdefault e k v = (case e k of None \<Rightarrow> e(k \<mapsto> v) | Some _ \<Rightarrow> e)"

text \<open>Python's truth value of the \<open>fakeclock\<close> argument: \<open>None\<close> and the empty string are
  false.\<close>

fun truthy :: "string option \<Rightarrow> bool" where
  "truthy None = False"
| "truthy (Some v) = (v \<noteq> [])"

definition run_env :: "env \<Rightarrow> string option \<Rightarrow> env" where
  "run_env ambient fakeclock =
     (let e = setdefault ambient ''GORACE'' ''halt_on_error=1''
      in if truthy fakeclock then setdefault e ''FAKECLOCK'' (the fakeclock) else e)"

definition run :: "world \<Rightarrow> string list \<Rightarrow> string option \<Rightarrow> state \<Rightarrow> (exn + Popen) \<times> state" where
  "run w c fakeclock s =
     (let e = run_env (environ w) fakeclock;
          r = Popen_outcome w (trace s) c e;
          s1 = emit (EvPopen c e r) s
      in case r of
           Inl x \<Rightarrow> (Inl x, s1)
         | Inr n \<Rightarrow> (Inr \<lparr>pid = n, args = c, popen_cmd = c\<rparr>, s1))"

subsection \<open>Primitives\<close>

text \<open>Each primitive asks the world for its outcome and records the effect.\<close>

definition poll :: "world \<Rightarrow> Popen \<Rightarrow> state \<Rightarrow> int option \<times> state" where
  "poll w p s = (let r = poll_outcome w (trace s) (pid p) in (r, emit (EvPoll (pid p) r) s))"

definition send_signal :: "world \<Rightarrow> Popen \<Rightarrow> state \<Rightarrow> (exn + unit) \<times> state" where
  "send_signal w p s =
     (let r = send_signal_outcome w (trace s) (pid p);
          s1 = emit (EvSendSignal (pid p) r) s
      in case r of None \<Rightarrow> (Inr (), s1) | Some x \<Rightarrow> (Inl x, s1))"

definition wait :: "world \<Rightarrow> Popen \<Rightarrow> state \<Rightarrow> (exn + int) \<times> state" where
  "wait w p s = (let r = wait_outcome w (trace s) (pid p) in (r, emit (EvWait (pid p) r) s))"

definition sleep :: "nat \<Rightarrow> state \<Rightarrow> state" where
  "sleep ms s = emit (EvSleep ms) s"

definition connect :: "world \<Rightarrow> nat \<Rightarrow> state \<Rightarrow> nat option \<times> state" where
  "connect w port s =
     (let r = connect_outcome w (trace s) port in (r, emit (EvConnect port r) s))"

definition close :: "nat \<Rightarrow> state \<Rightarrow> state" where
  "close port s = emit (EvClose port) s"

definition print :: "printed \<Rightarrow> state \<Rightarrow> state" where
  "print l s = emit (EvPrint l) s"

text \<open>\<open>subprocess.check_call\<close>: raises \<open>CalledProcessError\<close> on an exit code other
  than 0.\<close>

definition check_call :: "world \<Rightarrow> string list \<Rightarrow> state \<Rightarrow> (exn + unit) \<times> state" where
  "check_call w argv s =
     (let r = check_call_outcome w (trace s) argv;
          s1 = emit (EvCheckCall argv r) s
      in case r of
           Inl x \<Rightarrow> (Inl x, s1)
         | Inr rc \<Rightarrow> if rc = 0 then (Inr (), s1) else (Inl (CalledProcessError rc), s1))"

text \<open>\<open>sep.join(xs)\<close> and \<open>os.path.join(a, b)\<close> for a relative \<open>b\<close>.\<close>

fun join :: "string \<Rightarrow> string list \<Rightarrow> string" where
  "join sep [] = []"
| "join sep [x] = x"
| "join sep (x # y # ys) = x @ sep @ join sep (y # ys)"

definition path_join :: "string \<Rightarrow> string \<Rightarrow> string" where
  "path_join a b =
     (if a = [] then b else if last a = CHR ''/'' then a @ b else a @ ''/'' @ b)"

subsection \<open>The dependency graph scheduler: \<open>_service_toposort\<close>\<close>

text \<open>\<open>not s.deps\<close>: true for \<open>None\<close> and for the empty tuple.\<close>

definition no_deps :: "Service \<Rightarrow> bool" where
  "no_deps s = (case deps s of None \<Rightarrow> True | Some ds \<Rightarrow> ds = [])"

definition deps_list :: "Service \<Rightarrow> string list" where
  "deps_list s = (case deps s of None \<Rightarrow> [] | Some ds \<Rightarrow> ds)"

text \<open>
  The sets \<open>ready\<close> and \<open>blocked\<close> are lists without repetition. \<open>set.pop()\<close> removes
  an element that Python does not specify: the element is chosen by a function \<open>pick\<close>
  of the set's members, a parameter of the scheduler (a choice outside the set falls back
  on the first member). No member returns to \<open>ready\<close> once popped, so every run of the
  Python is the run of some \<open>pick\<close>.
\<close>

type_synonym chooser = "Service list \<Rightarrow> Service"

definition pop :: "chooser \<Rightarrow> Service list \<Rightarrow> Service \<times> Service list" where
  "pop pick xs =
     (let x = (if pick xs \<in> set xs then pick xs else hd xs) in (x, removeAll x xs))"

text \<open>\<open>new = set([s for s in blocked if all([d in done for d in s.deps])])\<close>.
  Every member of \<open>blocked\<close> has a non-empty \<open>deps\<close> tuple, so the iteration over
  \<open>s.deps\<close> never meets \<open>None\<close>.\<close>

definition newly_ready :: "string set \<Rightarrow> Service list \<Rightarrow> Service list" where
  "newly_ready done blocked = [s \<leftarrow> blocked. \<forall>d \<in> set (deps_list s). d \<in> done]"

lemma toposort_measure:
  assumes "ready \<noteq> []"
  shows "length (snd (pop pick ready) @
                 [s \<leftarrow> newly_ready done blocked. s \<notin> set (snd (pop pick ready))])
         + length [s \<leftarrow> blocked. s \<notin> set (newly_ready done blocked)]
         < length ready + length blocked"
proof -
  let ?x = "fst (pop pick ready)"
  let ?new = "newly_ready done blocked"
  have x: "?x \<in> set ready"
    using assms by (simp add: pop_def Let_def)
  have r: "snd (pop pick ready) = removeAll ?x ready"
    by (simp add: pop_def Let_def)
  have a: "length (snd (pop pick ready)) < length ready"
    unfolding r using x by (rule length_removeAll_less)
  have b: "length [s \<leftarrow> ?new. s \<notin> set (snd (pop pick ready))] \<le> length ?new"
    by (rule length_filter_le)
  have "[s \<leftarrow> blocked. s \<notin> set ?new]
          = [s \<leftarrow> blocked. \<not> (\<forall>d \<in> set (deps_list s). d \<in> done)]"
    by (rule filter_cong) (auto simp: newly_ready_def)
  moreover have "length ?new
                   + length [s \<leftarrow> blocked. \<not> (\<forall>d \<in> set (deps_list s). d \<in> done)]
                 = length blocked"
    unfolding newly_ready_def by (rule sum_length_filter_compl)
  ultimately have c: "length ?new + length [s \<leftarrow> blocked. s \<notin> set ?new] = length blocked"
    by (simp only:)
  show ?thesis
    unfolding length_append using a b c by linarith
qed

text \<open>The \<open>while ready:\<close> loop. The result is the sequence of the services yielded, and
  what is left in \<open>blocked\<close> when \<open>ready\<close> is empty.\<close>

function toposort_loop ::
  "chooser \<Rightarrow> Service list \<Rightarrow> Service list \<Rightarrow> string set \<Rightarrow> Service list
     \<Rightarrow> Service list \<times> Service list" where
  "toposort_loop pick ready blocked done yielded =
     (if ready = [] then (yielded, blocked)
      else
        (let service = fst (pop pick ready);
             ready1 = snd (pop pick ready);
             done1 = insert (name service) done;
             new = newly_ready done1 blocked;
             ready2 = ready1 @ [s \<leftarrow> new. s \<notin> set ready1];
             blocked2 = [s \<leftarrow> blocked. s \<notin> set new]
         in toposort_loop pick ready2 blocked2 done1 (yielded @ [service])))"
  by pat_completeness auto
termination
  by (relation "measure (\<lambda>(pick, ready, blocked, done, yielded). length ready + length blocked)")
     (simp_all add: toposort_measure del: length_append)

text \<open>The generator: \<open>ready\<close> and \<open>blocked\<close> as the code builds them, then the loop. A
  generator that yields \<open>ys\<close> and is left with a non-empty \<open>blocked\<close> prints the warning
  and raises after its last yield; the caller sees both.\<close>

definition service_toposort :: "chooser \<Rightarrow> Service list \<Rightarrow> Service list \<times> Service list" where
  "service_toposort pick services =
     (let ready = remdups [s \<leftarrow> services. no_deps s];
          blocked = [s \<leftarrow> remdups services. s \<notin> set ready]
      in toposort_loop pick ready blocked {} [])"

text \<open>The lines \<open>print(s.name, ":", s.deps)\<close>, one for each member of \<open>blocked\<close>.\<close>

definition stuck_report :: "Service list \<Rightarrow> printed list" where
  "stuck_report blocked = UnsatisfiedHeader # map (\<lambda>s. Unsatisfied (name s) (deps s)) blocked"

text \<open>The scheduler run to its end, as a caller that consumes the whole generator sees
  it: the order, or the exception with the lines printed before it.\<close>

definition schedule :: "chooser \<Rightarrow> Service list \<Rightarrow> (exn \<times> printed list) + Service list" where
  "schedule pick services =
     (case service_toposort pick services of
        (yielded, blocked) \<Rightarrow>
          if blocked \<noteq> []
          then Inl (Exception ''Unable to satisfy service dependencies'', stuck_report blocked)
          else Inr yielded)"

subsection \<open>The readiness gate: \<open>waitport\<close> and \<open>waithealth\<close>\<close>

definition ECONNREFUSED :: nat where
  "ECONNREFUSED = 111"

text \<open>\<open>for _ in range(1000)\<close> with the attempts left as the first argument. The abort
  predicate \<open>perTickCheck\<close> is \<open>None\<close> or a function of the state.\<close>

fun waitport_loop ::
  "nat \<Rightarrow> world \<Rightarrow> nat \<Rightarrow> string \<Rightarrow> (state \<Rightarrow> bool \<times> state) option \<Rightarrow> state
     \<Rightarrow> (exn + bool) \<times> state" where
  "waitport_loop 0 w port prog perTickCheck s = (Inl (TimedOut port prog), s)"
| "waitport_loop (Suc n) w port prog perTickCheck s =
     (let s1 = sleep 100 s;
          t = (case perTickCheck of None \<Rightarrow> (True, s1) | Some f \<Rightarrow> f s1)
      in if \<not> fst t then (Inr False, snd t)
         else
           (case connect w port (snd t) of
              (None, s3) \<Rightarrow> (Inr True, close port s3)
            | (Some e, s3) \<Rightarrow>
                if e = ECONNREFUSED
                then waitport_loop n w port prog perTickCheck
                       (print (WaitingForDebugPort port prog) s3)
                else (Inl (SocketError e), s3)))"

definition waitport ::
  "world \<Rightarrow> nat \<Rightarrow> string \<Rightarrow> (state \<Rightarrow> bool \<times> state) option \<Rightarrow> state
     \<Rightarrow> (exn + bool) \<times> state" where
  "waitport w port prog perTickCheck s = waitport_loop 1000 w port prog perTickCheck s"

definition waithealth :: "world \<Rightarrow> string \<Rightarrow> string \<Rightarrow> state \<Rightarrow> (exn + unit) \<times> state" where
  "waithealth w prog addr s =
     check_call w
       [''./bin/health-checker'', ''-addr'', addr,
        ''-config'', path_join (config_dir w) ''health-checker.json''] s"

subsection \<open>The fleet controller: \<open>check\<close>, \<open>stop\<close>, \<open>start\<close> and the sidecar\<close>

text \<open>The loop of \<open>check\<close>, with the lists \<open>stillok\<close> and \<open>busted\<close> it appends to. An
  entry of \<open>busted\<close> is kept with the \<open>returncode\<close> its poll gave.\<close>

fun check_loop ::
  "world \<Rightarrow> Popen list \<Rightarrow> Popen list \<Rightarrow> (Popen \<times> int) list \<Rightarrow> state
     \<Rightarrow> (Popen list \<times> (Popen \<times> int) list) \<times> state" where
  "check_loop w [] stillok busted s = ((stillok, busted), s)"
| "check_loop w (p # ps) stillok busted s =
     (case poll w p s of
        (None, s1) \<Rightarrow> check_loop w ps (stillok @ [p]) busted s1
      | (Some rc, s1) \<Rightarrow> check_loop w ps stillok (busted @ [(p, rc)]) s1)"

definition report_busted :: "(Popen \<times> int) list \<Rightarrow> state \<Rightarrow> state" where
  "report_busted busted s =
     fold (\<lambda>(p, rc). print (ExitedEarly (popen_cmd p) (pid p) rc)) busted
       (print ExitedEarlyHeader s)"

definition check :: "world \<Rightarrow> state \<Rightarrow> bool \<times> state" where
  "check w s =
     (case check_loop w (processes s) [] [] s of
        ((stillok, busted), s1) \<Rightarrow>
          (let s2 = (if busted \<noteq> [] then report_busted busted s1 else s1)
           in (busted = [], s2\<lparr>processes := stillok\<rparr>)))"

text \<open>The three lines \<open>if p.poll() is None: p.send_signal(signal.SIGTERM); p.wait()\<close>,
  which \<open>stop\<close> and \<open>stopChallSrv\<close> both have. Nothing catches what the signal or the
  wait raises.\<close>

definition terminate :: "world \<Rightarrow> Popen \<Rightarrow> state \<Rightarrow> (exn + unit) \<times> state" where
  "terminate w p s =
     (case poll w p s of
        (Some rc, s1) \<Rightarrow> (Inr (), s1)
      | (None, s1) \<Rightarrow>
          (case send_signal w p s1 of
             (Inl x, s2) \<Rightarrow> (Inl x, s2)
           | (Inr u, s2) \<Rightarrow>
               (case wait w p s2 of
                  (Inl x, s3) \<Rightarrow> (Inl x, s3)
                | (Inr rc, s3) \<Rightarrow> (Inr (), s3))))"

definition challSrv_cmd :: "string \<Rightarrow> string list" where
  "challSrv_cmd fake_dns =
     [''pebble-challtestsrv'',
      ''--defaultIPv4'', fake_dns,
      ''-defaultIPv6'', [],
      ''--dns01'', '':8053,:8054'',
      ''--management'', '':8055'',
      ''--http01'', ''10.77.77.77:80'',
      ''-https01'', ''10.77.77.77:443'',
      ''--tlsalpn01'', ''10.88.88.88:443'']"

text \<open>\<open>startChallSrv\<close> returns \<open>False\<close> where the wait for the port says so, and nothing
  (\<open>None\<close>) otherwise. Where \<open>FAKE_DNS\<close> is not set the argument list holds \<open>None\<close>,
  which \<open>subprocess.Popen\<close> refuses with a \<open>TypeError\<close> before any process exists.\<close>

definition startChallSrv :: "world \<Rightarrow> state \<Rightarrow> (exn + bool option) \<times> state" where
  "startChallSrv w s =
     (case challSrvProcess s of
        Some p \<Rightarrow> (Inl (Exception ''startChallSrv called more than once''), s)
      | None \<Rightarrow>
          (case environ w ''FAKE_DNS'' of
             None \<Rightarrow> (Inl TypeError, s)
           | Some fake_dns \<Rightarrow>
               (case run w (challSrv_cmd fake_dns) None s of
                  (Inl x, s1) \<Rightarrow> (Inl x, s1)
                | (Inr p, s1) \<Rightarrow>
                    (case waitport w 8055 (join '' '' (args p)) None
                            (s1\<lparr>challSrvProcess := Some p\<rparr>) of
                       (Inl x, s2) \<Rightarrow> (Inl x, s2)
                     | (Inr ok, s2) \<Rightarrow>
                         if \<not> ok then (Inr (Some False), s2) else (Inr None, s2)))))"

definition stopChallSrv :: "world \<Rightarrow> state \<Rightarrow> (exn + unit) \<times> state" where
  "stopChallSrv w s =
     (case challSrvProcess s of
        None \<Rightarrow> (Inr (), s)
      | Some p \<Rightarrow>
          (case terminate w p s of
             (Inl x, s1) \<Rightarrow> (Inl x, s1)
           | (Inr u, s1) \<Rightarrow> (Inr (), s1\<lparr>challSrvProcess := None\<rparr>)))"

text \<open>The loop of \<open>stop\<close> over \<open>reversed(processes)\<close>.\<close>

fun stop_loop :: "world \<Rightarrow> Popen list \<Rightarrow> state \<Rightarrow> (exn + unit) \<times> state" where
  "stop_loop w [] s = (Inr (), s)"
| "stop_loop w (p # ps) s =
     (case terminate w p s of
        (Inl x, s1) \<Rightarrow> (Inl x, s1)
      | (Inr u, s1) \<Rightarrow> stop_loop w ps s1)"

definition stop :: "world \<Rightarrow> state \<Rightarrow> (exn + unit) \<times> state" where
  "stop w s =
     (case stop_loop w (rev (processes s)) s of
        (Inl x, s1) \<Rightarrow> (Inl x, s1)
      | (Inr u, s1) \<Rightarrow> stopChallSrv w (s1\<lparr>processes := []\<rparr>))"

text \<open>The body of the \<open>try\<close> in \<open>start\<close> for one service: \<open>Inr True\<close> where the gate
  is passed, \<open>Inr False\<close> where \<open>waitport\<close> returned \<open>False\<close>, \<open>Inl\<close> where something
  raised.\<close>

definition start_service ::
  "world \<Rightarrow> string option \<Rightarrow> Service \<Rightarrow> state \<Rightarrow> (exn + bool) \<times> state" where
  "start_service w fakeclock service s =
     (case run w (cmd service) fakeclock s of
        (Inl x, s1) \<Rightarrow> (Inl x, s1)
      | (Inr p, s1) \<Rightarrow>
          (let s2 = s1\<lparr>processes := processes s1 @ [p]\<rparr>
           in case grpc_addr service of
                Some addr \<Rightarrow>
                  (case waithealth w (join '' '' (args p)) addr s2 of
                     (Inl x, s3) \<Rightarrow> (Inl x, s3)
                   | (Inr u, s3) \<Rightarrow> (Inr True, s3))
              | None \<Rightarrow>
                  waitport w (debug_port service) (join '' '' (args p)) (Some (check w)) s2))"

text \<open>The \<open>for\<close> loop of \<open>start\<close> over the services the generator yields: \<open>Some False\<close>
  where the body returned \<open>False\<close>, \<open>None\<close> where the loop ran to its end.\<close>

fun start_loop ::
  "world \<Rightarrow> string option \<Rightarrow> Service list \<Rightarrow> state \<Rightarrow> bool option \<times> state" where
  "start_loop w fakeclock [] s = (None, s)"
| "start_loop w fakeclock (service # rest) s =
     (case start_service w fakeclock service (print (StartingService (name service)) s) of
        (Inr True, s1) \<Rightarrow> start_loop w fakeclock rest s1
      | (Inr False, s1) \<Rightarrow> (Some False, s1)
      | (Inl x, s1) \<Rightarrow> (Some False, print (ErrorStartingService (name service) x) s1))"

text \<open>The two calls of \<open>signal.signal\<close> that open \<open>start\<close>.\<close>

definition install_handlers :: "state \<Rightarrow> state" where
  "install_handlers s = emit (EvSignalHandler ''SIGINT'') (emit (EvSignalHandler ''SIGTERM'') s)"

text \<open>\<open>start\<close>, for a table of services (the module's table is \<open>SERVICES\<close>). The
  exception of \<open>startChallSrv\<close> and the one the generator raises after its last yield are
  outside the \<open>try\<close>: they leave \<open>start\<close>.\<close>

definition start ::
  "world \<Rightarrow> chooser \<Rightarrow> Service list \<Rightarrow> string option \<Rightarrow> state \<Rightarrow> (exn + bool) \<times> state" where
  "start w pick services fakeclock s =
     (case startChallSrv w (install_handlers s) of
        (Inl x, s1) \<Rightarrow> (Inl x, s1)
      | (Inr r, s1) \<Rightarrow>
          (case service_toposort pick services of
             (yielded, blocked) \<Rightarrow>
               (case start_loop w fakeclock yielded s1 of
                  (Some b, s2) \<Rightarrow> (Inr b, s2)
                | (None, s2) \<Rightarrow>
                    if blocked \<noteq> []
                    then (Inl (Exception ''Unable to satisfy service dependencies''),
                          fold print (stuck_report blocked) s2)
                    else (Inr True, print AllServersRunning s2))))"

subsection \<open>Reading a trace\<close>

text \<open>The effects of \<open>terminate\<close> on one process, where it returns: a poll that finds the
  process exited and nothing more, or a poll that finds it alive, then the signal, then
  the wait, all on that process.\<close>

inductive handled :: "Popen \<Rightarrow> event list \<Rightarrow> bool" where
  exited: "handled p [EvPoll (pid p) (Some rc)]"
| stopped: "handled p [EvPoll (pid p) None, EvSendSignal (pid p) None, EvWait (pid p) (Inr rc)]"

code_pred handled .

text \<open>The effects of \<open>terminate\<close> on one process, where the signal or the wait raises
  \<open>x\<close>: the raising call is the last effect.\<close>

inductive abandoned :: "Popen \<Rightarrow> exn \<Rightarrow> event list \<Rightarrow> bool" where
  signal_raised: "abandoned p x [EvPoll (pid p) None, EvSendSignal (pid p) (Some x)]"
| wait_raised:
    "abandoned p x [EvPoll (pid p) None, EvSendSignal (pid p) None, EvWait (pid p) (Inl x)]"

code_pred abandoned .

text \<open>The processes polled, with what each poll gave; the processes signalled; the
  exception an effect raised, for a signal or a wait that raised.\<close>

fun polls :: "event list \<Rightarrow> (nat \<times> int option) list" where
  "polls [] = []"
| "polls (EvPoll n r # evs) = (n, r) # polls evs"
| "polls (e # evs) = polls evs"

fun signalled :: "event list \<Rightarrow> nat list" where
  "signalled [] = []"
| "signalled (EvSendSignal n r # evs) = n # signalled evs"
| "signalled (e # evs) = signalled evs"

fun raised :: "event \<Rightarrow> exn option" where
  "raised (EvSendSignal n (Some x)) = Some x"
| "raised (EvWait n (Inl x)) = Some x"
| "raised e = None"

text \<open>What \<open>check\<close> prints for the processes polled with the results \<open>prs\<close>: nothing
  where every poll found its process alive, and otherwise the heading and one line for each
  process found exited, with its command, its pid and its exit code.\<close>

definition exited_lines :: "(Popen \<times> int option) list \<Rightarrow> event list" where
  "exited_lines prs =
     (if \<forall>(p, r) \<in> set prs. r = None then []
      else EvPrint ExitedEarlyHeader
             # map (\<lambda>(p, r). EvPrint (ExitedEarly (popen_cmd p) (pid p) (the r)))
                 (filter (\<lambda>(p, r). r \<noteq> None) prs))"

text \<open>The sleeps of a trace, by their length, and its connection attempts, by port and
  outcome.\<close>

fun sleeps :: "event list \<Rightarrow> nat list" where
  "sleeps [] = []"
| "sleeps (EvSleep ms # evs) = ms # sleeps evs"
| "sleeps (e # evs) = sleeps evs"

fun connects :: "event list \<Rightarrow> (nat \<times> nat option) list" where
  "connects [] = []"
| "connects (EvConnect port r # evs) = (port, r) # connects evs"
| "connects (e # evs) = connects evs"

text \<open>The handles of the processes a trace spawned; the names of the services whose start
  it announced; its calls of the health checker; and the number of readiness gates it
  passed: the connects that succeeded and the health checks that exited with 0.\<close>

fun spawned :: "event list \<Rightarrow> Popen list" where
  "spawned [] = []"
| "spawned (EvPopen c e (Inr n) # evs) = \<lparr>pid = n, args = c, popen_cmd = c\<rparr> # spawned evs"
| "spawned (e # evs) = spawned evs"

fun attempted :: "event list \<Rightarrow> string list" where
  "attempted [] = []"
| "attempted (EvPrint (StartingService n) # evs) = n # attempted evs"
| "attempted (e # evs) = attempted evs"

fun check_calls :: "event list \<Rightarrow> (string list \<times> (exn + int)) list" where
  "check_calls [] = []"
| "check_calls (EvCheckCall argv r # evs) = (argv, r) # check_calls evs"
| "check_calls (e # evs) = check_calls evs"

definition passed :: "event list \<Rightarrow> nat" where
  "passed evs =
     length [c \<leftarrow> connects evs. snd c = None] + length [c \<leftarrow> check_calls evs. snd c = Inr 0]"

text \<open>What \<open>start\<close> and its parts do to the running list, from the state \<open>s\<close> through
  the effects \<open>evs\<close> to the state \<open>s'\<close>: no process is signalled; the sidecar is as it
  was; the running list is a subsequence of the old list followed by the processes
  spawned; and a process that is missing from it was polled and found exited.\<close>

definition start_keeps :: "state \<Rightarrow> event list \<Rightarrow> state \<Rightarrow> bool" where
  "start_keeps s evs s' =
     (trace s' = trace s @ evs
      \<and> challSrvProcess s' = challSrvProcess s
      \<and> signalled evs = []
      \<and> subseq (processes s') (processes s @ spawned evs)
      \<and> (\<forall>p \<in> set (processes s @ spawned evs).
            p \<notin> set (processes s') \<longrightarrow> (\<exists>rc. (pid p, Some rc) \<in> set (polls evs))))"

subsection \<open>Reading a descriptor table\<close>

text \<open>The dependency relation of a table: \<open>s\<close> depends on \<open>t\<close> where both are in the
  table and the name of \<open>t\<close> is among the \<open>deps\<close> of \<open>s\<close>. A table is \<open>declared\<close>
  where every name in a \<open>deps\<close> is the name of a service of the table.\<close>

definition depends_on :: "Service list \<Rightarrow> (Service \<times> Service) set" where
  "depends_on services =
     set [(s, t). s \<leftarrow> services, t \<leftarrow> services, name t \<in> set (deps_list s)]"

definition declared :: "Service list \<Rightarrow> bool" where
  "declared services =
     list_all (\<lambda>s. list_all (\<lambda>d. d \<in> set (map name services)) (deps_list s)) services"

text \<open>\<open>t\<close> stands before \<open>s\<close> in the sequence \<open>xs\<close>.\<close>

definition precedes :: "'a list \<Rightarrow> 'a \<Rightarrow> 'a \<Rightarrow> bool" where
  "precedes xs t s = (\<exists>i < length xs. \<exists>j < i. xs ! j = t \<and> xs ! i = s)"

text \<open>Every member of the sequence comes after services that carry the names in its
  \<open>deps\<close>.\<close>

definition deps_first :: "Service list \<Rightarrow> bool" where
  "deps_first ys = (\<forall>i < length ys. set (deps_list (ys ! i)) \<subseteq> name ` set (take i ys))"

text \<open>The services of a table that can be resolved by removing, again and again, a service
  whose dependencies are all resolved: the least set closed under that step.\<close>

inductive resolvable :: "Service list \<Rightarrow> Service \<Rightarrow> bool" for services where
  resolve:
    "s \<in> set services \<Longrightarrow>
     \<forall>d \<in> set (deps_list s). \<exists>t \<in> set services. name t = d \<and> resolvable services t \<Longrightarrow>
     resolvable services s"

text \<open>The names in the \<open>deps\<close> of \<open>s\<close> that no yielded service carries: its unmet
  dependencies, in the words of the specification.\<close>

definition unmet_deps :: "Service list \<Rightarrow> Service \<Rightarrow> string list" where
  "unmet_deps yielded s = [d \<leftarrow> deps_list s. d \<notin> name ` set yielded]"

text \<open>The invariant of the \<open>while\<close> loop, for the set \<open>S\<close> of the services of the table:
  \<open>ready\<close>, \<open>blocked\<close> and the services yielded so far split \<open>S\<close>; \<open>done\<close> holds the
  names of the services yielded; the members of \<open>ready\<close> have all their dependencies done
  and the members of \<open>blocked\<close> have not.\<close>

definition sched_inv ::
  "Service set \<Rightarrow> Service list \<Rightarrow> Service list \<Rightarrow> string set \<Rightarrow> Service list \<Rightarrow> bool" where
  "sched_inv S ready blocked done yielded =
     (distinct ready \<and> distinct blocked \<and> distinct yielded
      \<and> set ready \<inter> set blocked = {} \<and> set ready \<inter> set yielded = {}
      \<and> set blocked \<inter> set yielded = {}
      \<and> set ready \<union> set blocked \<union> set yielded = S
      \<and> done = name ` set yielded
      \<and> (\<forall>s \<in> set ready. set (deps_list s) \<subseteq> done)
      \<and> (\<forall>s \<in> set blocked. \<not> set (deps_list s) \<subseteq> done)
      \<and> deps_first yielded)"

subsection \<open>Worlds and fleets to run the model on\<close>

text \<open>A world where every primitive succeeds: a spawn gives a fresh pid, every process is
  alive and terminates on the signal, every port accepts the connection.\<close>

definition calm :: world where
  "calm = \<lparr>environ = [''FAKE_DNS'' \<mapsto> ''10.77.77.77''],
           config_dir = ''test/config'',
           Popen_outcome = (\<lambda>h c e. Inr (Suc (length h))),
           poll_outcome = (\<lambda>h n. None),
           send_signal_outcome = (\<lambda>h n. None),
           wait_outcome = (\<lambda>h n. Inr 0),
           connect_outcome = (\<lambda>h n. None),
           check_call_outcome = (\<lambda>h c. Inr 0)\<rparr>"

text \<open>The process \<open>n\<close> has exited with code 1.\<close>

definition crashed :: "nat \<Rightarrow> world" where
  "crashed n = calm\<lparr>poll_outcome := (\<lambda>h m. if m = n then Some 1 else None)\<rparr>"

text \<open>The signal to process \<open>n\<close> raises.\<close>

definition unsignalable :: "nat \<Rightarrow> world" where
  "unsignalable n = calm\<lparr>send_signal_outcome := (\<lambda>h m. if m = n then Some OSError else None)\<rparr>"

text \<open>The process \<open>n\<close> exits with code 1 once the trace has \<open>k\<close> effects.\<close>

definition crashes_at :: "nat \<Rightarrow> nat \<Rightarrow> world" where
  "crashes_at n k =
     calm\<lparr>poll_outcome := (\<lambda>h m. if m = n \<and> k \<le> length h then Some 1 else None)\<rparr>"

definition proc :: "nat \<Rightarrow> Popen" where
  "proc n = \<lparr>pid = n, args = [''./bin/srv''], popen_cmd = [''./bin/srv'']\<rparr>"

definition idle :: state where
  "idle = \<lparr>processes = [], challSrvProcess = None, trace = []\<rparr>"

text \<open>Two tracked processes, started in the order 1, 2, and the sidecar.\<close>

definition fleet :: state where
  "fleet = \<lparr>processes = [proc 1, proc 2], challSrvProcess = Some (proc 3), trace = []\<rparr>"

text \<open>Small tables: \<open>b\<close> depends on \<open>a\<close>; \<open>a\<close> and \<open>b\<close> depend on each other; \<open>b\<close>
  depends on \<open>a\<close> and on a name that is not declared.\<close>

definition svc :: "string \<Rightarrow> string list option \<Rightarrow> Service" where
  "svc n ds = Service n 8000 None [''./bin/'' @ n] ds"

definition chain_table :: "Service list" where
  "chain_table = [svc ''b'' (Some [''a'']), svc ''a'' None]"

definition cycle_table :: "Service list" where
  "cycle_table = [svc ''a'' (Some [''b'']), svc ''b'' (Some [''a''])]"

definition typo_table :: "Service list" where
  "typo_table = [svc ''a'' None, svc ''b'' (Some [''a'', ''x''])]"

subsection \<open>Facts about \<open>run\<close>\<close>

lemma run_env_GORACE:
  "run_env ambient fakeclock ''GORACE'' =
     (case ambient ''GORACE'' of None \<Rightarrow> Some ''halt_on_error=1'' | Some v \<Rightarrow> Some v)"
  by (simp add: run_env_def setdefault_def Let_def split: option.splits)

lemma run_env_FAKECLOCK:
  "run_env ambient fakeclock ''FAKECLOCK'' =
     (case ambient ''FAKECLOCK'' of
        Some v \<Rightarrow> Some v
      | None \<Rightarrow> (if truthy fakeclock then fakeclock else None))"
  by (cases fakeclock) (simp_all add: run_env_def setdefault_def Let_def split: option.splits)

lemma run_env_other:
  "k \<noteq> ''GORACE'' \<Longrightarrow> k \<noteq> ''FAKECLOCK'' \<Longrightarrow> run_env ambient fakeclock k = ambient k"
  by (simp add: run_env_def setdefault_def Let_def split: option.splits)

lemma run_trace:
  "trace (snd (run w c fakeclock s)) =
     trace s @ [EvPopen c (run_env (environ w) fakeclock)
                  (Popen_outcome w (trace s) c (run_env (environ w) fakeclock))]"
  by (simp add: run_def Let_def emit_def split: sum.splits)

text \<open>
  Claim C9, as stated: the child always sees the supplied clock override in its
  environment. It does not where the ambient environment already sets \<open>FAKECLOCK\<close>: with
  the ambient value \<open>then\<close> and the supplied override \<open>now\<close>, the environment handed to
  \<open>subprocess.Popen\<close> has \<open>FAKECLOCK = then\<close>.
\<close>

theorem C9_override_not_seen:
  "run_env [''FAKECLOCK'' \<mapsto> ''then''] (Some ''now'') ''FAKECLOCK'' = Some ''then''
   \<and> run_env [''FAKECLOCK'' \<mapsto> ''then''] (Some ''now'') ''FAKECLOCK'' \<noteq> Some ''now''"
  by (simp add: run_env_def setdefault_def Let_def)

text \<open>
  Claim C9, amended: \<open>run\<close> spawns exactly one child, and the environment it hands to
  \<open>subprocess.Popen\<close> is the ambient environment with two defaults filled in. Every
  variable the ambient environment sets keeps its ambient value; \<open>GORACE\<close> is
  \<open>halt_on_error=1\<close> where the ambient environment does not set it; \<open>FAKECLOCK\<close> is the
  supplied override where the override is non-empty and the ambient environment does not
  set it, and stays unset where no (or an empty) override is supplied; nothing else is
  added.
\<close>

theorem C9_run_environment:
  "\<exists>e r. trace (snd (run w c fakeclock s)) = trace s @ [EvPopen c e r]
     \<and> (\<forall>k v. environ w k = Some v \<longrightarrow> e k = Some v)
     \<and> (environ w ''GORACE'' = None \<longrightarrow> e ''GORACE'' = Some ''halt_on_error=1'')
     \<and> (environ w ''FAKECLOCK'' = None \<longrightarrow>
          e ''FAKECLOCK'' = (if truthy fakeclock then fakeclock else None))
     \<and> (\<forall>k. k \<noteq> ''GORACE'' \<longrightarrow> k \<noteq> ''FAKECLOCK'' \<longrightarrow> e k = environ w k)"
proof -
  let ?e = "run_env (environ w) fakeclock"
  let ?r = "Popen_outcome w (trace s) c ?e"
  have t: "trace (snd (run w c fakeclock s)) = trace s @ [EvPopen c ?e ?r]"
    by (rule run_trace)
  have keep: "\<forall>k v. environ w k = Some v \<longrightarrow> ?e k = Some v"
  proof (intro allI impI)
    fix k v assume a: "environ w k = Some v"
    show "?e k = Some v"
    proof (cases "k = ''GORACE''")
      case True
      with a show ?thesis by (simp add: run_env_GORACE)
    next
      case g: False
      show ?thesis
      proof (cases "k = ''FAKECLOCK''")
        case True
        with a show ?thesis by (simp add: run_env_FAKECLOCK)
      next
        case False
        with g a show ?thesis by (simp add: run_env_other)
      qed
    qed
  qed
  have g: "environ w ''GORACE'' = None \<longrightarrow> ?e ''GORACE'' = Some ''halt_on_error=1''"
    by (simp add: run_env_GORACE)
  have f: "environ w ''FAKECLOCK'' = None \<longrightarrow>
             ?e ''FAKECLOCK'' = (if truthy fakeclock then fakeclock else None)"
    by (simp add: run_env_FAKECLOCK)
  have o: "\<forall>k. k \<noteq> ''GORACE'' \<longrightarrow> k \<noteq> ''FAKECLOCK'' \<longrightarrow> ?e k = environ w k"
    by (simp add: run_env_other)
  show ?thesis
  proof (intro exI conjI)
    show "trace (snd (run w c fakeclock s)) = trace s @ [EvPopen c ?e ?r]" by (rule t)
    show "\<forall>k v. environ w k = Some v \<longrightarrow> ?e k = Some v" by (rule keep)
    show "environ w ''GORACE'' = None \<longrightarrow> ?e ''GORACE'' = Some ''halt_on_error=1''"
      by (rule g)
    show "environ w ''FAKECLOCK'' = None \<longrightarrow>
            ?e ''FAKECLOCK'' = (if truthy fakeclock then fakeclock else None)" by (rule f)
    show "\<forall>k. k \<noteq> ''GORACE'' \<longrightarrow> k \<noteq> ''FAKECLOCK'' \<longrightarrow> ?e k = environ w k"
      by (rule o)
  qed
qed

text \<open>The amended claim at work: in the world \<open>calm\<close>, whose ambient environment sets
  \<open>FAKE_DNS\<close> only, a child spawned with the override \<open>now\<close> sees the ambient variable,
  the default \<open>GORACE\<close> and the override.\<close>

theorem C9_run_environment_witness:
  "\<exists>e r. trace (snd (run calm [''./bin/srv''] (Some ''now'') idle)) = [EvPopen [''./bin/srv''] e r]
     \<and> e ''FAKE_DNS'' = Some ''10.77.77.77''
     \<and> e ''GORACE'' = Some ''halt_on_error=1''
     \<and> e ''FAKECLOCK'' = Some ''now''"
proof -
  have amb: "environ calm ''FAKE_DNS'' = Some ''10.77.77.77''"
    "environ calm ''GORACE'' = None" "environ calm ''FAKECLOCK'' = None"
    by (simp_all add: calm_def)
  from C9_run_environment [of calm "[''./bin/srv'']" "Some ''now''" idle]
  obtain e r where
    t: "trace (snd (run calm [''./bin/srv''] (Some ''now'') idle))
          = trace idle @ [EvPopen [''./bin/srv''] e r]"
    and keep: "\<forall>k v. environ calm k = Some v \<longrightarrow> e k = Some v"
    and g: "environ calm ''GORACE'' = None \<longrightarrow> e ''GORACE'' = Some ''halt_on_error=1''"
    and f: "environ calm ''FAKECLOCK'' = None \<longrightarrow>
              e ''FAKECLOCK'' = (if truthy (Some ''now'') then Some ''now'' else None)"
    by (elim exE conjE)
  have 1: "e ''FAKE_DNS'' = Some ''10.77.77.77''"
    by (rule keep [THEN spec, THEN spec, THEN mp, OF amb(1)])
  from g amb(2) have 2: "e ''GORACE'' = Some ''halt_on_error=1''" by (rule mp)
  from f amb(3) have "e ''FAKECLOCK'' = (if truthy (Some ''now'') then Some ''now'' else None)"
    by (rule mp)
  then have 3: "e ''FAKECLOCK'' = Some ''now''" by simp
  from t have 0: "trace (snd (run calm [''./bin/srv''] (Some ''now'') idle)) = [EvPopen [''./bin/srv''] e r]"
    by (simp add: idle_def)
  show ?thesis
    by (intro exI conjI) (rule 0, rule 1, rule 2, rule 3)
qed

subsection \<open>Facts about \<open>stop\<close> and \<open>stopChallSrv\<close>\<close>

lemma emit_simps [simp]:
  "trace (emit e s) = trace s @ [e]"
  "processes (emit e s) = processes s"
  "challSrvProcess (emit e s) = challSrvProcess s"
  by (simp_all add: emit_def)

lemma terminate_effects:
  assumes "terminate w p s = (r, s')"
  shows "processes s' = processes s \<and> challSrvProcess s' = challSrvProcess s
         \<and> (\<exists>b. trace s' = trace s @ b
              \<and> (case r of Inr u \<Rightarrow> handled p b | Inl x \<Rightarrow> abandoned p x b))"
  using assms
  by (auto simp: terminate_def poll_def send_signal_def wait_def Let_def
           intro: handled.intros abandoned.intros
           split: option.splits sum.splits prod.splits)

lemma stop_loop_globals:
  "stop_loop w ps s = (r, s') \<Longrightarrow>
     processes s' = processes s \<and> challSrvProcess s' = challSrvProcess s"
proof (induction ps arbitrary: s)
  case Nil
  then show ?case by simp
next
  case (Cons p ps)
  obtain r1 s1 where t: "terminate w p s = (r1, s1)" by (cases "terminate w p s")
  from terminate_effects [OF t]
  have g: "processes s1 = processes s" "challSrvProcess s1 = challSrvProcess s" by simp_all
  show ?case
  proof (cases r1)
    case (Inl x)
    with Cons.prems t g show ?thesis by simp
  next
    case (Inr u)
    with Cons.prems t have "stop_loop w ps s1 = (r, s')" by simp
    from Cons.IH [OF this] g show ?thesis by simp
  qed
qed

lemma stop_loop_returns:
  "stop_loop w ps s = (Inr u, s') \<Longrightarrow>
     \<exists>bs. trace s' = trace s @ concat bs \<and> list_all2 handled ps bs"
proof (induction ps arbitrary: s)
  case Nil
  then have "trace s' = trace s @ concat []" "list_all2 handled [] []" by simp_all
  then show ?case by blast
next
  case (Cons p ps)
  obtain r1 s1 where t: "terminate w p s = (r1, s1)" by (cases "terminate w p s")
  with Cons.prems obtain u1 where r1: "r1 = Inr u1" and l: "stop_loop w ps s1 = (Inr u, s')"
    by (cases r1) simp_all
  from terminate_effects [OF t] r1 obtain b where
    b: "trace s1 = trace s @ b" "handled p b" by auto
  from Cons.IH [OF l] obtain bs where
    bs: "trace s' = trace s1 @ concat bs" "list_all2 handled ps bs" by blast
  from b bs have "trace s' = trace s @ concat (b # bs)" "list_all2 handled (p # ps) (b # bs)"
    by simp_all
  then show ?case by blast
qed

lemma stop_loop_raises:
  "stop_loop w ps s = (Inl x, s') \<Longrightarrow>
     \<exists>bs b k. k < length ps \<and> trace s' = trace s @ concat bs @ b
        \<and> list_all2 handled (take k ps) bs \<and> abandoned (ps ! k) x b"
proof (induction ps arbitrary: s)
  case Nil
  then show ?case by simp
next
  case (Cons p ps)
  obtain r1 s1 where t: "terminate w p s = (r1, s1)" by (cases "terminate w p s")
  show ?case
  proof (cases r1)
    case (Inl y)
    with Cons.prems t have "y = x" "s' = s1" by simp_all
    with terminate_effects [OF t] Inl obtain b where
      "trace s' = trace s @ b" "abandoned p x b" by auto
    then have "0 < length (p # ps)" "trace s' = trace s @ concat [] @ b"
      "list_all2 handled (take 0 (p # ps)) []" "abandoned ((p # ps) ! 0) x b"
      by simp_all
    then show ?thesis by blast
  next
    case (Inr u1)
    with Cons.prems t have l: "stop_loop w ps s1 = (Inl x, s')" by simp
    from terminate_effects [OF t] Inr obtain b where
      b: "trace s1 = trace s @ b" "handled p b" by auto
    from Cons.IH [OF l] obtain bs b' k where
      k: "k < length ps" "trace s' = trace s1 @ concat bs @ b'"
         "list_all2 handled (take k ps) bs" "abandoned (ps ! k) x b'" by blast
    from b k have "Suc k < length (p # ps)" "trace s' = trace s @ concat (b # bs) @ b'"
      "list_all2 handled (take (Suc k) (p # ps)) (b # bs)" "abandoned ((p # ps) ! Suc k) x b'"
      by simp_all
    then show ?thesis by blast
  qed
qed

lemma stopChallSrv_effects:
  assumes "stopChallSrv w s = (r, s')"
  shows "processes s' = processes s
     \<and> (case r of
          Inr u \<Rightarrow> challSrvProcess s' = None
            \<and> (\<exists>side. trace s' = trace s @ side
                 \<and> (case challSrvProcess s of None \<Rightarrow> side = [] | Some c \<Rightarrow> handled c side))
        | Inl x \<Rightarrow> challSrvProcess s' = challSrvProcess s
            \<and> (\<exists>side c. challSrvProcess s = Some c \<and> trace s' = trace s @ side
                 \<and> abandoned c x side))"
proof (cases "challSrvProcess s")
  case None
  with assms show ?thesis by (auto simp: stopChallSrv_def)
next
  case (Some c)
  obtain r1 s1 where t: "terminate w c s = (r1, s1)" by (cases "terminate w c s")
  from terminate_effects [OF t] obtain b where
    g: "processes s1 = processes s" "challSrvProcess s1 = challSrvProcess s"
    and b: "trace s1 = trace s @ b"
           "case r1 of Inr u \<Rightarrow> handled c b | Inl x \<Rightarrow> abandoned c x b" by blast
  show ?thesis
  proof (cases r1)
    case (Inl x)
    with assms Some t g b show ?thesis by (auto simp: stopChallSrv_def)
  next
    case (Inr u)
    with assms Some t g b show ?thesis by (auto simp: stopChallSrv_def)
  qed
qed


lemma polls_append [simp]: "polls (a @ b) = polls a @ polls b"
  by (induction a rule: polls.induct) simp_all

lemma signalled_append [simp]: "signalled (a @ b) = signalled a @ signalled b"
  by (induction a rule: signalled.induct) simp_all

lemma handled_facts:
  assumes "handled p b"
  shows "map fst (polls b) = [pid p]" "\<forall>e \<in> set b. raised e = None"
    "signalled b = (if snd (hd (polls b)) = None then [pid p] else [])"
  using assms by (auto elim!: handled.cases)

lemma abandoned_facts:
  assumes "abandoned p x b"
  shows "map fst (polls b) = [pid p]" "b \<noteq> []" "raised (last b) = Some x"
    "\<forall>e \<in> set (butlast b). raised e = None" "signalled b = [pid p]"
  using assms by (auto elim!: abandoned.cases)

lemma handled_blocks:
  "list_all2 handled ps bs \<Longrightarrow>
     map fst (polls (concat bs)) = map pid ps \<and> (\<forall>e \<in> set (concat bs). raised e = None)"
proof (induction rule: list_all2_induct)
  case Nil
  then show ?case by simp
next
  case (Cons p ps b bs)
  from handled_facts(1,2) [OF Cons.hyps(1)] Cons.IH show ?case by auto
qed

lemma stop_returns:
  assumes "stop w s = (Inr u, s')"
  shows "processes s' = [] \<and> challSrvProcess s' = None \<and>
     (\<exists>bs side. trace s' = trace s @ concat bs @ side
        \<and> list_all2 handled (rev (processes s)) bs
        \<and> (case challSrvProcess s of None \<Rightarrow> side = [] | Some c \<Rightarrow> handled c side))"
proof -
  obtain r1 s1 where l: "stop_loop w (rev (processes s)) s = (r1, s1)"
    by (cases "stop_loop w (rev (processes s)) s")
  with assms obtain u1 where r1: "r1 = Inr u1"
    and c: "stopChallSrv w (s1\<lparr>processes := []\<rparr>) = (Inr u, s')"
    by (cases r1) (simp_all add: stop_def)
  from stop_loop_globals [OF l] have g: "challSrvProcess s1 = challSrvProcess s" by simp
  from stop_loop_returns [OF l [unfolded r1]] obtain bs where
    bs: "trace s1 = trace s @ concat bs" "list_all2 handled (rev (processes s)) bs" by blast
  from stopChallSrv_effects [OF c] g obtain side where
    sd: "processes s' = []" "challSrvProcess s' = None" "trace s' = trace s1 @ side"
        "case challSrvProcess s of None \<Rightarrow> side = [] | Some c \<Rightarrow> handled c side"
    by auto
  from bs sd have "trace s' = trace s @ concat bs @ side" by simp
  with bs(2) sd show ?thesis by blast
qed

lemma stop_raises:
  assumes "stop w s = (Inl x, s')"
  shows "challSrvProcess s' = challSrvProcess s \<and>
     ((processes s' = processes s
        \<and> (\<exists>bs b k. k < length (processes s) \<and> trace s' = trace s @ concat bs @ b
              \<and> list_all2 handled (take k (rev (processes s))) bs
              \<and> abandoned (rev (processes s) ! k) x b))
      \<or> (processes s' = []
        \<and> (\<exists>bs side c. challSrvProcess s = Some c \<and> trace s' = trace s @ concat bs @ side
              \<and> list_all2 handled (rev (processes s)) bs \<and> abandoned c x side)))"
proof -
  obtain r1 s1 where l: "stop_loop w (rev (processes s)) s = (r1, s1)"
    by (cases "stop_loop w (rev (processes s)) s")
  from stop_loop_globals [OF l]
  have g: "processes s1 = processes s" "challSrvProcess s1 = challSrvProcess s" by simp_all
  show ?thesis
  proof (cases r1)
    case (Inl y)
    with assms l have e: "y = x" "s' = s1" by (simp_all add: stop_def)
    from stop_loop_raises [OF l [unfolded Inl e(1)]] obtain bs b k where
      "k < length (processes s)" "trace s1 = trace s @ concat bs @ b"
      "list_all2 handled (take k (rev (processes s))) bs" "abandoned (rev (processes s) ! k) x b"
      by auto
    with g e show ?thesis by blast
  next
    case (Inr u1)
    with assms l have c: "stopChallSrv w (s1\<lparr>processes := []\<rparr>) = (Inl x, s')"
      by (simp add: stop_def)
    from stop_loop_returns [OF l [unfolded Inr]] obtain bs where
      bs: "trace s1 = trace s @ concat bs" "list_all2 handled (rev (processes s)) bs" by blast
    from stopChallSrv_effects [OF c] g obtain side c where
      sd: "processes s' = []" "challSrvProcess s' = challSrvProcess s"
          "challSrvProcess s = Some c" "trace s' = trace s1 @ side" "abandoned c x side"
      by auto
    from bs sd have "trace s' = trace s @ concat bs @ side" by simp
    with bs(2) sd show ?thesis by blast
  qed
qed








text \<open>
  Claim C8, as stated: an error of a signal is swallowed and \<open>stop\<close> goes on to the
  remaining processes, clears the running list and stops the sidecar. In the world where
  the signal to process 2 raises \<open>OSError\<close>, \<open>stop\<close> on the fleet of 1 and 2 ends with
  that exception: process 1 and the sidecar are never polled or signalled, the running
  list still holds both processes and the sidecar is still tracked.
\<close>

theorem C8_signal_error_leaves_stop:
  "stop (unsignalable 2) fleet =
     (Inl OSError, \<lparr>processes = [proc 1, proc 2], challSrvProcess = Some (proc 3),
                    trace = [EvPoll 2 None, EvSendSignal 2 (Some OSError)]\<rparr>)"
  by (simp add: stop_def stopChallSrv_def terminate_def poll_def send_signal_def wait_def
        unsignalable_def calm_def fleet_def proc_def emit_def Let_def)

text \<open>
  Claim C8, amended: \<open>stop\<close> catches nothing. It returns exactly where no signal and no
  wait raises, and then the running list is empty and no sidecar is tracked. Where a
  signal or a wait raises \<open>x\<close>, \<open>stop\<close> ends with \<open>x\<close> and the raising call is its last
  effect; the sidecar stays tracked; where the raising call is on a tracked process, the
  running list is unchanged and only the processes up to that one in the reverse order
  have been polled; where it is on the sidecar, every tracked process has been handled and
  the running list is empty.
\<close>

theorem C8_stop_propagates:
  assumes "stop w s = (r, s')"
  shows "\<exists>evs. trace s' = trace s @ evs \<and>
     (case r of
        Inr u \<Rightarrow> (\<forall>e \<in> set evs. raised e = None)
          \<and> processes s' = [] \<and> challSrvProcess s' = None
      | Inl x \<Rightarrow> evs \<noteq> [] \<and> raised (last evs) = Some x
          \<and> (\<forall>e \<in> set (butlast evs). raised e = None)
          \<and> challSrvProcess s' = challSrvProcess s
          \<and> ((processes s' = processes s
                \<and> (\<exists>k < length (processes s).
                      map fst (polls evs) = map pid (take (Suc k) (rev (processes s)))))
             \<or> (processes s' = []
                \<and> (\<exists>c. challSrvProcess s = Some c
                      \<and> map fst (polls evs) = map pid (rev (processes s)) @ [pid c]))))"
proof (cases r)
  case (Inr u)
  from stop_returns [OF assms [unfolded Inr]] obtain bs side where
    g: "processes s' = []" "challSrvProcess s' = None"
    and t: "trace s' = trace s @ concat bs @ side"
    and bs: "list_all2 handled (rev (processes s)) bs"
    and sd: "case challSrvProcess s of None \<Rightarrow> side = [] | Some c \<Rightarrow> handled c side"
    by blast
  from sd have "\<forall>e \<in> set side. raised e = None"
    by (cases "challSrvProcess s") (simp_all add: handled_facts(2))
  with handled_blocks [OF bs] have "\<forall>e \<in> set (concat bs @ side). raised e = None" by auto
  with g t Inr show ?thesis by auto
next
  case (Inl x)
  from stop_raises [OF assms [unfolded Inl]]
  have c: "challSrvProcess s' = challSrvProcess s" by simp
  from stop_raises [OF assms [unfolded Inl]]
  consider (main) bs b k where "processes s' = processes s" "k < length (processes s)"
      "trace s' = trace s @ concat bs @ b" "list_all2 handled (take k (rev (processes s))) bs"
      "abandoned (rev (processes s) ! k) x b"
    | (sidecar) bs side c where "processes s' = []" "challSrvProcess s = Some c"
      "trace s' = trace s @ concat bs @ side" "list_all2 handled (rev (processes s)) bs"
      "abandoned c x side"
    by blast
  then show ?thesis
  proof cases
    case main
    let ?evs = "concat bs @ b"
    note a = abandoned_facts [OF main(5)]
    note h = handled_blocks [OF main(4)]
    have 1: "?evs \<noteq> []" "raised (last ?evs) = Some x" using a by simp_all
    have 2: "\<forall>e \<in> set (butlast ?evs). raised e = None"
      using a h by (auto simp: butlast_append)
    have "map fst (polls ?evs) = map pid (take k (rev (processes s))) @ [pid (rev (processes s) ! k)]"
      using a h by simp
    also have "\<dots> = map pid (take (Suc k) (rev (processes s)))"
      using main(2) by (simp add: take_Suc_conv_app_nth)
    finally have 3: "map fst (polls ?evs) = map pid (take (Suc k) (rev (processes s)))" .
    from main(1,2,3) 1 2 3 c Inl show ?thesis by auto
  next
    case sidecar
    let ?evs = "concat bs @ side"
    note a = abandoned_facts [OF sidecar(5)]
    note h = handled_blocks [OF sidecar(4)]
    have 1: "?evs \<noteq> []" "raised (last ?evs) = Some x" using a by simp_all
    have 2: "\<forall>e \<in> set (butlast ?evs). raised e = None"
      using a h by (auto simp: butlast_append)
    have 3: "map fst (polls ?evs) = map pid (rev (processes s)) @ [pid c]"
      using a h by simp
    from sidecar(1,2,3) 1 2 3 c Inl show ?thesis by auto
  qed
qed

text \<open>Claim C8, amended, in the world where the signal to process 2 raises.\<close>

theorem C8_stop_propagates_witness:
  "fst (stop (unsignalable 2) fleet) = Inl OSError
   \<and> (\<exists>evs. trace (snd (stop (unsignalable 2) fleet)) = evs
        \<and> evs \<noteq> [] \<and> raised (last evs) = Some OSError
        \<and> challSrvProcess (snd (stop (unsignalable 2) fleet)) = Some (proc 3))"
proof -
  let ?s' = "snd (stop (unsignalable 2) fleet)"
  have e: "stop (unsignalable 2) fleet = (Inl OSError, ?s')"
    by (simp add: stop_def stopChallSrv_def terminate_def poll_def send_signal_def wait_def
          unsignalable_def calm_def fleet_def proc_def emit_def Let_def)
  from C8_stop_propagates [OF e] obtain evs where
    "trace ?s' = trace fleet @ evs" "evs \<noteq> []" "raised (last evs) = Some OSError"
    "challSrvProcess ?s' = challSrvProcess fleet"
    by auto
  then have "trace ?s' = evs \<and> evs \<noteq> [] \<and> raised (last evs) = Some OSError
        \<and> challSrvProcess ?s' = Some (proc 3)"
    by (simp add: fleet_def)
  moreover have "fst (stop (unsignalable 2) fleet) = Inl OSError"
    by (simp add: stop_def stopChallSrv_def terminate_def poll_def send_signal_def wait_def
          unsignalable_def calm_def fleet_def proc_def emit_def Let_def)
  ultimately show ?thesis by blast
qed

subsection \<open>Facts about \<open>check\<close>\<close>

lemma print_simps [simp]:
  "trace (print l s) = trace s @ [EvPrint l]"
  "processes (print l s) = processes s"
  "challSrvProcess (print l s) = challSrvProcess s"
  by (simp_all add: print_def)

lemma check_loop_effects:
  "check_loop w ps stillok busted s = ((stillok', busted'), s') \<Longrightarrow>
     \<exists>rs. length rs = length ps
       \<and> trace s' = trace s @ map (\<lambda>(p, r). EvPoll (pid p) r) (zip ps rs)
       \<and> stillok' = stillok @ map fst (filter (\<lambda>(p, r). r = None) (zip ps rs))
       \<and> busted' = busted @ map (\<lambda>(p, r). (p, the r)) (filter (\<lambda>(p, r). r \<noteq> None) (zip ps rs))
       \<and> processes s' = processes s \<and> challSrvProcess s' = challSrvProcess s"
proof (induction ps arbitrary: stillok busted s)
  case Nil
  then show ?case by simp
next
  case (Cons p ps)
  let ?r = "poll_outcome w (trace s) (pid p)"
  let ?s1 = "emit (EvPoll (pid p) ?r) s"
  have pl: "poll w p s = (?r, ?s1)" by (simp add: poll_def Let_def)
  show ?case
  proof (cases ?r)
    case None
    with Cons.prems pl
    have "check_loop w ps (stillok @ [p]) busted ?s1 = ((stillok', busted'), s')" by simp
    from Cons.IH [OF this] obtain rs where
      rs: "length rs = length ps"
        "trace s' = trace ?s1 @ map (\<lambda>(p, r). EvPoll (pid p) r) (zip ps rs)"
        "stillok' = (stillok @ [p]) @ map fst (filter (\<lambda>(p, r). r = None) (zip ps rs))"
        "busted' = busted @ map (\<lambda>(p, r). (p, the r)) (filter (\<lambda>(p, r). r \<noteq> None) (zip ps rs))"
        "processes s' = processes ?s1" "challSrvProcess s' = challSrvProcess ?s1"
      by blast
    with None show ?thesis
      by (intro exI [of _ "?r # rs"]) simp
  next
    case (Some rc)
    with Cons.prems pl
    have "check_loop w ps stillok (busted @ [(p, rc)]) ?s1 = ((stillok', busted'), s')" by simp
    from Cons.IH [OF this] obtain rs where
      rs: "length rs = length ps"
        "trace s' = trace ?s1 @ map (\<lambda>(p, r). EvPoll (pid p) r) (zip ps rs)"
        "stillok' = stillok @ map fst (filter (\<lambda>(p, r). r = None) (zip ps rs))"
        "busted' = (busted @ [(p, rc)]) @ map (\<lambda>(p, r). (p, the r)) (filter (\<lambda>(p, r). r \<noteq> None) (zip ps rs))"
        "processes s' = processes ?s1" "challSrvProcess s' = challSrvProcess ?s1"
      by blast
    with Some show ?thesis
      by (intro exI [of _ "?r # rs"]) simp
  qed
qed

lemma fold_print_effects:
  "trace (fold (\<lambda>x. print (f x)) xs s) = trace s @ map (\<lambda>x. EvPrint (f x)) xs
   \<and> processes (fold (\<lambda>x. print (f x)) xs s) = processes s
   \<and> challSrvProcess (fold (\<lambda>x. print (f x)) xs s) = challSrvProcess s"
  by (induction xs arbitrary: s) simp_all

lemma report_busted_effects:
  "trace (report_busted busted s) =
     trace s @ EvPrint ExitedEarlyHeader
       # map (\<lambda>(p, rc). EvPrint (ExitedEarly (popen_cmd p) (pid p) rc)) busted"
  "processes (report_busted busted s) = processes s"
  "challSrvProcess (report_busted busted s) = challSrvProcess s"
proof -
  have e: "(\<lambda>(p, rc). print (ExitedEarly (popen_cmd p) (pid p) rc))
             = (\<lambda>x. print (case x of (p, rc) \<Rightarrow> ExitedEarly (popen_cmd p) (pid p) rc))"
    by (rule ext) (simp split: prod.splits)
  have m: "map (\<lambda>(p, rc). EvPrint (ExitedEarly (popen_cmd p) (pid p) rc)) busted
             = map (\<lambda>x. EvPrint (case x of (p, rc) \<Rightarrow> ExitedEarly (popen_cmd p) (pid p) rc)) busted"
    by (rule map_cong) (simp_all split: prod.splits)
  show "trace (report_busted busted s) =
     trace s @ EvPrint ExitedEarlyHeader
       # map (\<lambda>(p, rc). EvPrint (ExitedEarly (popen_cmd p) (pid p) rc)) busted"
    unfolding report_busted_def e m by (simp add: fold_print_effects)
  show "processes (report_busted busted s) = processes s"
    unfolding report_busted_def e by (simp add: fold_print_effects)
  show "challSrvProcess (report_busted busted s) = challSrvProcess s"
    unfolding report_busted_def e by (simp add: fold_print_effects)
qed

lemma check_effects:
  assumes "check w s = (alive, s')"
  shows "\<exists>rs. length rs = length (processes s)
     \<and> trace s' = trace s @ map (\<lambda>(p, r). EvPoll (pid p) r) (zip (processes s) rs)
                    @ exited_lines (zip (processes s) rs)
     \<and> alive = (\<forall>r \<in> set rs. r = None)
     \<and> processes s' = map fst (filter (\<lambda>(p, r). r = None) (zip (processes s) rs))
     \<and> challSrvProcess s' = challSrvProcess s"
proof -
  obtain stillok busted s1 where
    l: "check_loop w (processes s) [] [] s = ((stillok, busted), s1)"
    by (metis surj_pair)
  from check_loop_effects [OF l] obtain rs where
    rs: "length rs = length (processes s)"
      "trace s1 = trace s @ map (\<lambda>(p, r). EvPoll (pid p) r) (zip (processes s) rs)"
      "stillok = map fst (filter (\<lambda>(p, r). r = None) (zip (processes s) rs))"
      "busted = map (\<lambda>(p, r). (p, the r)) (filter (\<lambda>(p, r). r \<noteq> None) (zip (processes s) rs))"
      "processes s1 = processes s" "challSrvProcess s1 = challSrvProcess s"
    by auto
  let ?prs = "zip (processes s) rs"
  have b: "(busted = []) = (\<forall>r \<in> set rs. r = None)"
  proof -
    have "(busted = []) = (\<forall>(p, r) \<in> set ?prs. r = None)"
      using rs(4) by (auto simp: filter_empty_conv)
    also have "\<dots> = (\<forall>r \<in> set (map snd ?prs). r = None)" by auto
    also have "map snd ?prs = rs" using rs(1) by simp
    finally show ?thesis .
  qed
  have b2: "(busted = []) = (\<forall>(p, r) \<in> set ?prs. r = None)"
    using rs(4) by (auto simp: filter_empty_conv)
  have a: "alive = (busted = [])"
    and s': "s' = (if busted \<noteq> [] then report_busted busted s1 else s1)\<lparr>processes := stillok\<rparr>"
    using assms l by (auto simp: check_def Let_def)
  have lines: "trace (if busted \<noteq> [] then report_busted busted s1 else s1)
                 = trace s1 @ exited_lines ?prs"
  proof (cases "busted = []")
    case True
    with b2 show ?thesis by (simp add: exited_lines_def)
  next
    case False
    have "map (\<lambda>(p, rc). EvPrint (ExitedEarly (popen_cmd p) (pid p) rc)) busted
            = map (\<lambda>(p, r). EvPrint (ExitedEarly (popen_cmd p) (pid p) (the r)))
                (filter (\<lambda>(p, r). r \<noteq> None) ?prs)"
      unfolding rs(4) by (simp add: comp_def split_def)
    with False b2 show ?thesis
      by (simp add: exited_lines_def report_busted_effects)
  qed
  have "trace s' = trace s1 @ exited_lines ?prs" using s' lines by simp
  moreover have "processes s' = stillok" using s' by simp
  moreover have "challSrvProcess s' = challSrvProcess s"
    using s' rs(6) by (simp add: report_busted_effects)
  ultimately show ?thesis using rs a b by (intro exI [of _ rs]) simp
qed


lemma survivors_subseq:
  assumes "length rs = length ps"
  shows "subseq (map fst (filter P (zip ps rs))) ps"
proof -
  have "subseq (map fst (filter P (zip ps rs))) (map fst (zip ps rs))"
    by (rule subseq_map) simp
  with assms show ?thesis by simp
qed

text \<open>
  Claim C1, as stated: \<open>check\<close> returns true exactly when a tracked process was found
  dead. On the fleet of processes 1 and 2 it returns \<open>True\<close> in the world where both polls
  find their process alive, and \<open>False\<close> in the world where process 2 has exited: the
  result is true exactly when no process was found dead, as the docstring of \<open>check\<close>
  says and as \<open>waitport\<close> and the callers of \<open>check\<close> use it.
\<close>

theorem C1_check_true_when_all_alive:
  "fst (check calm fleet) = True
   \<and> polls (trace (snd (check calm fleet))) = [(1, None), (2, None)]
   \<and> fst (check (crashed 2) fleet) = False
   \<and> polls (trace (snd (check (crashed 2) fleet))) = [(1, None), (2, Some 1)]"
  by (simp add: check_def poll_def report_busted_def print_def emit_def Let_def
        calm_def crashed_def fleet_def proc_def)

text \<open>
  Claim C1, amended: \<open>check\<close> polls the processes of the running list, each once and in
  the order of the list, and nothing else (\<open>rs\<close> are the results of the polls). It
  returns true exactly when every poll found its process alive. The running list becomes
  the processes found alive, in their original order. Where a process was found exited,
  \<open>check\<close> prints the heading and, for each process found exited, its command, its pid
  and its exit code. The sidecar is neither polled nor changed.
\<close>

theorem C1_check:
  assumes "check w s = (alive, s')"
  shows "\<exists>rs. length rs = length (processes s)
     \<and> trace s' = trace s @ map (\<lambda>(p, r). EvPoll (pid p) r) (zip (processes s) rs)
                    @ exited_lines (zip (processes s) rs)
     \<and> alive = (\<forall>r \<in> set rs. r = None)
     \<and> processes s' = map fst (filter (\<lambda>(p, r). r = None) (zip (processes s) rs))
     \<and> subseq (processes s') (processes s)
     \<and> challSrvProcess s' = challSrvProcess s"
proof -
  from check_effects [OF assms] obtain rs where
    rs: "length rs = length (processes s)"
      "trace s' = trace s @ map (\<lambda>(p, r). EvPoll (pid p) r) (zip (processes s) rs)
                    @ exited_lines (zip (processes s) rs)"
      "alive = (\<forall>r \<in> set rs. r = None)"
      "processes s' = map fst (filter (\<lambda>(p, r). r = None) (zip (processes s) rs))"
      "challSrvProcess s' = challSrvProcess s"
    by blast
  from survivors_subseq [OF rs(1)] rs(4) have "subseq (processes s') (processes s)" by simp
  with rs show ?thesis by blast
qed

text \<open>Claim C1, amended, on the fleet where process 2 has exited.\<close>

theorem C1_check_witness:
  "fst (check (crashed 2) fleet) = False
   \<and> (\<exists>rs. length rs = 2
        \<and> trace (snd (check (crashed 2) fleet))
            = map (\<lambda>(p, r). EvPoll (pid p) r) (zip [proc 1, proc 2] rs)
              @ exited_lines (zip [proc 1, proc 2] rs)
        \<and> processes (snd (check (crashed 2) fleet))
            = map fst (filter (\<lambda>(p, r). r = None) (zip [proc 1, proc 2] rs))
        \<and> challSrvProcess (snd (check (crashed 2) fleet)) = Some (proc 3))"
proof -
  let ?c = "check (crashed 2) fleet"
  have e: "?c = (fst ?c, snd ?c)" by simp
  have f: "fst ?c = False"
    by (simp add: check_def poll_def report_busted_def print_def emit_def Let_def
          calm_def crashed_def fleet_def proc_def)
  from C1_check [OF e] obtain rs where
    "length rs = length (processes fleet)"
    "trace (snd ?c) = trace fleet @ map (\<lambda>(p, r). EvPoll (pid p) r) (zip (processes fleet) rs)
                    @ exited_lines (zip (processes fleet) rs)"
    "processes (snd ?c) = map fst (filter (\<lambda>(p, r). r = None) (zip (processes fleet) rs))"
    "challSrvProcess (snd ?c) = challSrvProcess fleet"
    by blast
  then have "length rs = 2
        \<and> trace (snd ?c) = map (\<lambda>(p, r). EvPoll (pid p) r) (zip [proc 1, proc 2] rs)
              @ exited_lines (zip [proc 1, proc 2] rs)
        \<and> processes (snd ?c) = map fst (filter (\<lambda>(p, r). r = None) (zip [proc 1, proc 2] rs))
        \<and> challSrvProcess (snd ?c) = Some (proc 3)"
    by (simp add: fleet_def)
  then have "\<exists>rs. length rs = 2
        \<and> trace (snd ?c) = map (\<lambda>(p, r). EvPoll (pid p) r) (zip [proc 1, proc 2] rs)
              @ exited_lines (zip [proc 1, proc 2] rs)
        \<and> processes (snd ?c) = map fst (filter (\<lambda>(p, r). r = None) (zip [proc 1, proc 2] rs))
        \<and> challSrvProcess (snd ?c) = Some (proc 3)"
    by (rule exI)
  with f show ?thesis by (rule conjI)
qed

subsection \<open>Facts about \<open>waitport\<close> and the sidecar\<close>

lemma sleep_simps [simp]:
  "trace (sleep ms s) = trace s @ [EvSleep ms]"
  "processes (sleep ms s) = processes s"
  "challSrvProcess (sleep ms s) = challSrvProcess s"
  by (simp_all add: sleep_def)

lemma close_simps [simp]:
  "trace (close port s) = trace s @ [EvClose port]"
  "processes (close port s) = processes s"
  "challSrvProcess (close port s) = challSrvProcess s"
  by (simp_all add: close_def)

lemma connect_eq:
  "connect w port s =
     (connect_outcome w (trace s) port, emit (EvConnect port (connect_outcome w (trace s) port)) s)"
  by (simp add: connect_def Let_def)

lemma waitport_loop_None_globals:
  "waitport_loop n w port prog None s = (r, s') \<Longrightarrow>
     processes s' = processes s \<and> challSrvProcess s' = challSrvProcess s"
proof (induction n arbitrary: s)
  case 0
  then show ?case by simp
next
  case (Suc n)
  let ?r = "connect_outcome w (trace (sleep 100 s)) port"
  let ?s3 = "emit (EvConnect port ?r) (sleep 100 s)"
  show ?case
  proof (cases ?r)
    case None
    with Suc.prems have "s' = close port ?s3"
      by (simp add: Let_def connect_eq)
    then show ?thesis by simp
  next
    case (Some e)
    show ?thesis
    proof (cases "e = ECONNREFUSED")
      case True
      with Some Suc.prems
      have "waitport_loop n w port prog None (print (WaitingForDebugPort port prog) ?s3)
              = (r, s')"
        by (simp add: Let_def connect_eq)
      from Suc.IH [OF this] show ?thesis by simp
    next
      case False
      with Some Suc.prems have "s' = ?s3"
        by (simp add: Let_def connect_eq)
      then show ?thesis by simp
    qed
  qed
qed

lemma waitport_first_attempt:
  "waitport w port prog perTickCheck s =
     (let s1 = sleep 100 s;
          t = (case perTickCheck of None \<Rightarrow> (True, s1) | Some f \<Rightarrow> f s1)
      in if \<not> fst t then (Inr False, snd t)
         else
           (case connect w port (snd t) of
              (None, s3) \<Rightarrow> (Inr True, close port s3)
            | (Some e, s3) \<Rightarrow>
                if e = ECONNREFUSED
                then waitport_loop 999 w port prog perTickCheck
                       (print (WaitingForDebugPort port prog) s3)
                else (Inl (SocketError e), s3)))"
proof -
  have "(1000::nat) = Suc 999" by simp
  then have "waitport w port prog perTickCheck s
               = waitport_loop (Suc 999) w port prog perTickCheck s"
    unfolding waitport_def by (rule arg_cong [where f = "\<lambda>n. waitport_loop n w port prog perTickCheck s"])
  then show ?thesis by (simp only: waitport_loop.simps)
qed

text \<open>
  Claim C10: the tracked sidecar is one process or none. \<open>startChallSrv\<close> on a state
  that tracks a sidecar raises and leaves the whole state, the tracked sidecar included, as
  it is. Wherever \<open>stopChallSrv\<close> returns, no sidecar is tracked; on a sidecar that has
  already exited it returns after the poll alone, with no signal and no wait, and the
  sidecar is reset to absent. So a sidecar can start again only after \<open>stopChallSrv\<close>.
\<close>

theorem C10_single_sidecar:
  "(challSrvProcess s = Some p \<longrightarrow>
      startChallSrv w s = (Inl (Exception ''startChallSrv called more than once''), s))
   \<and> (stopChallSrv w s = (Inr u, s') \<longrightarrow> challSrvProcess s' = None)
   \<and> (challSrvProcess s = Some p \<and> poll_outcome w (trace s) (pid p) = Some rc \<longrightarrow>
        stopChallSrv w s
          = (Inr (), s\<lparr>challSrvProcess := None, trace := trace s @ [EvPoll (pid p) (Some rc)]\<rparr>))"
proof (intro conjI impI)
  assume "challSrvProcess s = Some p"
  then show "startChallSrv w s = (Inl (Exception ''startChallSrv called more than once''), s)"
    by (simp add: startChallSrv_def)
next
  assume "stopChallSrv w s = (Inr u, s')"
  from stopChallSrv_effects [OF this] show "challSrvProcess s' = None" by simp
next
  assume "challSrvProcess s = Some p \<and> poll_outcome w (trace s) (pid p) = Some rc"
  then show "stopChallSrv w s
          = (Inr (), s\<lparr>challSrvProcess := None, trace := trace s @ [EvPoll (pid p) (Some rc)]\<rparr>)"
    by (simp add: stopChallSrv_def terminate_def poll_def Let_def emit_def)
qed


text \<open>Claim C10 on the fleet with the sidecar 3: a second start raises; the stop of the
  exited sidecar resets it; the start after that stop is accepted.\<close>

theorem C10_single_sidecar_witness:
  "startChallSrv calm fleet = (Inl (Exception ''startChallSrv called more than once''), fleet)
   \<and> stopChallSrv (crashed 3) fleet
       = (Inr (), fleet\<lparr>challSrvProcess := None, trace := trace fleet @ [EvPoll 3 (Some 1)]\<rparr>)
   \<and> challSrvProcess (snd (stopChallSrv (crashed 3) fleet)) = None
   \<and> fst (startChallSrv calm (snd (stopChallSrv (crashed 3) fleet))) = Inr None"
proof -
  have t: "challSrvProcess fleet = Some (proc 3)" by (simp add: fleet_def)
  have x: "challSrvProcess fleet = Some (proc 3)
             \<and> poll_outcome (crashed 3) (trace fleet) (pid (proc 3)) = Some 1"
    by (simp add: fleet_def crashed_def proc_def)
  note c = C10_single_sidecar [of fleet "proc 3" calm]
  have 1: "startChallSrv calm fleet
             = (Inl (Exception ''startChallSrv called more than once''), fleet)"
    by (rule c [THEN conjunct1, THEN mp, OF t])
  have 2: "stopChallSrv (crashed 3) fleet
       = (Inr (), fleet\<lparr>challSrvProcess := None,
                        trace := trace fleet @ [EvPoll (pid (proc 3)) (Some 1)]\<rparr>)"
    by (rule C10_single_sidecar [of fleet "proc 3" "crashed 3" "()" fleet 1,
              THEN conjunct2, THEN conjunct2, THEN mp, OF x])
  have p: "pid (proc 3) = 3" by (simp add: proc_def)
  have 3: "challSrvProcess (snd (stopChallSrv (crashed 3) fleet)) = None"
    by (simp add: 2)
  have "fst (startChallSrv calm
               (fleet\<lparr>challSrvProcess := None,
                      trace := trace fleet @ [EvPoll (pid (proc 3)) (Some 1)]\<rparr>)) = Inr None"
    by (simp add: startChallSrv_def run_def waitport_first_attempt connect_eq
          calm_def fleet_def Let_def emit_def)
  then have 4: "fst (startChallSrv calm (snd (stopChallSrv (crashed 3) fleet))) = Inr None"
    by (simp only: 2 snd_conv)
  from 1 2 3 4 show ?thesis by (simp only: p)
qed

subsection \<open>Facts about the readiness gate\<close>

lemma sleeps_append [simp]: "sleeps (a @ b) = sleeps a @ sleeps b"
  by (induction a rule: sleeps.induct) simp_all

lemma connects_append [simp]: "connects (a @ b) = connects a @ connects b"
  by (induction a rule: connects.induct) simp_all









declare toposort_loop.simps [simp del]

subsection \<open>Facts about the scheduler\<close>

text \<open>The equation of the loop is unfolded by hand, one iteration at a time.\<close>

lemma pop_facts:
  assumes "ready \<noteq> []"
  shows "fst (pop pick ready) \<in> set ready"
    and "snd (pop pick ready) = removeAll (fst (pop pick ready)) ready"
  using assms by (simp_all add: pop_def Let_def)

lemma deps_first_snoc:
  assumes "deps_first ys" "set (deps_list s) \<subseteq> name ` set ys"
  shows "deps_first (ys @ [s])"
  unfolding deps_first_def
proof (intro allI impI)
  fix i assume "i < length (ys @ [s])"
  then consider "i < length ys" | "i = length ys" by fastforce
  then show "set (deps_list ((ys @ [s]) ! i)) \<subseteq> name ` set (take i (ys @ [s]))"
  proof cases
    case 1
    with assms(1) show ?thesis by (simp add: deps_first_def nth_append)
  next
    case 2
    with assms(2) show ?thesis by simp
  qed
qed

lemma sched_inv_step:
  assumes inv: "sched_inv S ready blocked done yielded" and ne: "ready \<noteq> []"
  shows "sched_inv S
           (snd (pop pick ready) @
              [s \<leftarrow> newly_ready (insert (name (fst (pop pick ready))) done) blocked.
                 s \<notin> set (snd (pop pick ready))])
           [s \<leftarrow> blocked.
              s \<notin> set (newly_ready (insert (name (fst (pop pick ready))) done) blocked)]
           (insert (name (fst (pop pick ready))) done)
           (yielded @ [fst (pop pick ready)])"
proof -
  let ?x = "fst (pop pick ready)"
  let ?done1 = "insert (name ?x) done"
  let ?new = "newly_ready ?done1 blocked"
  have x: "?x \<in> set ready" and r1: "snd (pop pick ready) = removeAll ?x ready"
    using pop_facts [OF ne] by simp_all
  have new: "set ?new = {s \<in> set blocked. set (deps_list s) \<subseteq> ?done1}"
    by (auto simp: newly_ready_def)
  have dnew: "distinct ?new" using inv by (simp add: newly_ready_def sched_inv_def)
  from inv have d: "distinct ready" "distinct blocked" "distinct yielded"
    and j: "set ready \<inter> set blocked = {}" "set ready \<inter> set yielded = {}"
           "set blocked \<inter> set yielded = {}"
    and u: "set ready \<union> set blocked \<union> set yielded = S"
    and dn: "done = name ` set yielded"
    and rd: "\<forall>s \<in> set ready. set (deps_list s) \<subseteq> done"
    and bl: "\<forall>s \<in> set blocked. \<not> set (deps_list s) \<subseteq> done"
    and df: "deps_first yielded"
    unfolding sched_inv_def by blast+
  have 1: "distinct (removeAll ?x ready @ [s \<leftarrow> ?new. s \<notin> set (removeAll ?x ready)])"
    using d(1) dnew by (auto simp: distinct_removeAll)
  have 2: "distinct [s \<leftarrow> blocked. s \<notin> set ?new]" using d(2) by simp
  have 3: "distinct (yielded @ [?x])" using d(3) x j(2) by auto
  have sr: "set (removeAll ?x ready @ [s \<leftarrow> ?new. s \<notin> set (removeAll ?x ready)])
              = (set ready - {?x}) \<union> set ?new"
    by auto
  have sb: "set [s \<leftarrow> blocked. s \<notin> set ?new] = set blocked - set ?new" by auto
  have sy: "set (yielded @ [?x]) = insert ?x (set yielded)" by simp
  have nb: "set ?new \<subseteq> set blocked" using new by auto
  have 4: "((set ready - {?x}) \<union> set ?new) \<inter> (set blocked - set ?new) = {}"
    using j(1) by auto
  have 5: "((set ready - {?x}) \<union> set ?new) \<inter> insert ?x (set yielded) = {}"
    using j x nb by auto
  have 6: "(set blocked - set ?new) \<inter> insert ?x (set yielded) = {}"
    using j x by auto
  have 7: "((set ready - {?x}) \<union> set ?new) \<union> (set blocked - set ?new) \<union> insert ?x (set yielded) = S"
    using u x nb by auto
  have 8: "?done1 = name ` insert ?x (set yielded)" using dn by simp
  have 9: "\<forall>s \<in> (set ready - {?x}) \<union> set ?new. set (deps_list s) \<subseteq> ?done1"
    using rd new by auto
  have 10: "\<forall>s \<in> set blocked - set ?new. \<not> set (deps_list s) \<subseteq> ?done1"
    using new by auto
  have 11: "deps_first (yielded @ [?x])"
    using df rd x dn by (intro deps_first_snoc) auto
  show ?thesis
    unfolding sched_inv_def r1 sr sb sy
    using 1 2 3 4 5 6 7 8 9 10 11 by (intro conjI)
qed

lemma toposort_loop_inv:
  "sched_inv S ready blocked done yielded \<Longrightarrow>
   toposort_loop pick ready blocked done yielded = (out, stuck) \<Longrightarrow>
   sched_inv S [] stuck (name ` set out) out"
proof (induction pick ready blocked "done" yielded rule: toposort_loop.induct)
  case (1 pick ready blocked "done" yielded)
  show ?case
  proof (cases "ready = []")
    case True
    with "1.prems"(2) have "out = yielded" "stuck = blocked"
      by (simp_all add: toposort_loop.simps [of pick "[]"])
    with "1.prems"(1) True show ?thesis by (auto simp: sched_inv_def)
  next
    case False
    note step = sched_inv_step [OF "1.prems"(1) False, of pick]
    from "1.prems"(2) False
    have run: "toposort_loop pick
           (snd (pop pick ready) @
              [s \<leftarrow> newly_ready (insert (name (fst (pop pick ready))) done) blocked.
                 s \<notin> set (snd (pop pick ready))])
           [s \<leftarrow> blocked.
              s \<notin> set (newly_ready (insert (name (fst (pop pick ready))) done) blocked)]
           (insert (name (fst (pop pick ready))) done)
           (yielded @ [fst (pop pick ready)]) = (out, stuck)"
      by (simp add: toposort_loop.simps [of pick ready] Let_def)
    from "1.IH" [OF False refl refl refl refl refl refl step run] show ?thesis .
  qed
qed


lemma sched_inv_init:
  "sched_inv (set services)
     (remdups [s \<leftarrow> services. no_deps s])
     [s \<leftarrow> remdups services. s \<notin> set (remdups [s \<leftarrow> services. no_deps s])] {} []"
proof -
  have a: "set (deps_list s) \<subseteq> {}" if "no_deps s" for s
    using that by (simp add: no_deps_def deps_list_def split: option.splits)
  have b: "\<not> set (deps_list s) \<subseteq> {}" if "\<not> no_deps s" for s
    using that by (cases "deps s") (simp_all add: no_deps_def deps_list_def)
  show ?thesis
    unfolding sched_inv_def using a b by (auto simp: deps_first_def)
qed

lemma service_toposort_inv:
  assumes "service_toposort pick services = (out, stuck)"
  shows "sched_inv (set services) [] stuck (name ` set out) out"
  using assms toposort_loop_inv [OF sched_inv_init, of pick services out stuck]
  by (simp add: service_toposort_def Let_def)

lemma in_take_nth:
  assumes "x \<in> set (take i xs)"
  shows "\<exists>j < i. j < length xs \<and> xs ! j = x"
proof -
  from assms obtain j where "j < length (take i xs)" "take i xs ! j = x"
    unfolding in_set_conv_nth by blast
  then have "j < i" "j < length xs" "xs ! j = x" by simp_all
  then show ?thesis by blast
qed

lemma yielded_resolvable:
  assumes df: "deps_first out" and sub: "set out \<subseteq> set services"
  shows "i < length out \<Longrightarrow> resolvable services (out ! i)"
proof (induction i rule: less_induct)
  case (less i)
  show ?case
  proof (rule resolvable.resolve)
    show "out ! i \<in> set services" using less.prems sub by auto
    show "\<forall>d \<in> set (deps_list (out ! i)).
            \<exists>t \<in> set services. name t = d \<and> resolvable services t"
    proof
      fix d assume "d \<in> set (deps_list (out ! i))"
      with df less.prems have "d \<in> name ` set (take i out)"
        by (auto simp: deps_first_def)
      then obtain t where t: "t \<in> set (take i out)" "name t = d" by auto
      from in_take_nth [OF t(1)] obtain j where j: "j < i" "j < length out" "out ! j = t"
        by blast
      from less.IH [OF j(1) j(2)] j(3) have "resolvable services t" by simp
      moreover from j sub have "t \<in> set services" by auto
      ultimately show "\<exists>t \<in> set services. name t = d \<and> resolvable services t"
        using t(2) by blast
    qed
  qed
qed

lemma resolvable_yielded:
  assumes inv: "sched_inv (set services) [] stuck D out"
  shows "resolvable services s \<Longrightarrow> s \<in> set out"
proof (induction rule: resolvable.induct)
  case (resolve s)
  from inv have u: "set stuck \<union> set out = set services"
    and d: "D = name ` set out"
    and b: "\<forall>s \<in> set stuck. \<not> set (deps_list s) \<subseteq> D"
    unfolding sched_inv_def by auto
  from resolve(2) have "set (deps_list s) \<subseteq> name ` set out" by force
  with b d have "s \<notin> set stuck" by auto
  with u resolve(1) show ?case by auto
qed

lemma toposort_sets:
  assumes "service_toposort pick services = (out, stuck)"
  shows "set out = {s \<in> set services. resolvable services s}"
    and "set stuck = {s \<in> set services. \<not> resolvable services s}"
    and "distinct out" and "distinct stuck" and "deps_first out"
proof -
  note inv = service_toposort_inv [OF assms]
  from inv have u: "set stuck \<union> set out = set services"
    and j: "set stuck \<inter> set out = {}"
    and d: "distinct out" "distinct stuck" and df: "deps_first out"
    unfolding sched_inv_def by auto
  have sub: "set out \<subseteq> set services" using u by auto
  have 1: "resolvable services s" if "s \<in> set out" for s
    using that yielded_resolvable [OF df sub] by (auto simp: in_set_conv_nth)
  have 2: "s \<in> set out" if "resolvable services s" for s
    using that by (rule resolvable_yielded [OF inv])
  show "set out = {s \<in> set services. resolvable services s}"
    using 1 2 sub by auto
  show "set stuck = {s \<in> set services. \<not> resolvable services s}"
    using 1 2 u j by auto
  show "distinct out" "distinct stuck" "deps_first out" by (fact d df)+
qed

lemma depends_on_iff:
  "(s, t) \<in> depends_on services \<longleftrightarrow>
     s \<in> set services \<and> t \<in> set services \<and> name t \<in> set (deps_list s)"
  by (auto simp: depends_on_def)

lemma declared_iff:
  "declared services \<longleftrightarrow>
     (\<forall>s \<in> set services. \<forall>d \<in> set (deps_list s). \<exists>t \<in> set services. name t = d)"
  by (fastforce simp: declared_def list_all_iff image_iff)

lemma all_resolvable:
  assumes dec: "declared services" and acy: "acyclic (depends_on services)"
  shows "s \<in> set services \<Longrightarrow> resolvable services s"
proof -
  have "finite (depends_on services)" by (simp add: depends_on_def)
  from this acy have "wf ((depends_on services)\<inverse>)" by (rule finite_acyclic_wf_converse)
  then show "s \<in> set services \<Longrightarrow> resolvable services s"
  proof (induction s rule: wf_induct_rule)
    case (less s)
    show ?case
    proof (rule resolvable.resolve)
      show "s \<in> set services" by (rule less.prems)
      show "\<forall>d \<in> set (deps_list s). \<exists>t \<in> set services. name t = d \<and> resolvable services t"
      proof
        fix d assume d: "d \<in> set (deps_list s)"
        with dec less.prems obtain t where t: "t \<in> set services" "name t = d"
          by (auto simp: declared_iff)
        with d less.prems have "(t, s) \<in> (depends_on services)\<inverse>"
          by (simp add: depends_on_iff)
        from less.IH [OF this t(1)] t
        show "\<exists>t \<in> set services. name t = d \<and> resolvable services t" by blast
      qed
    qed
  qed
qed

lemma unique_names:
  assumes "distinct (map name services)" "s \<in> set services" "t \<in> set services"
    "name s = name t"
  shows "s = t"
  using assms by (auto simp: distinct_map dest: inj_onD)

lemma cyclic_unresolvable:
  assumes un: "distinct (map name services)"
  shows "resolvable services s \<Longrightarrow> (s, s) \<notin> (depends_on services)\<^sup>+"
proof (induction rule: resolvable.induct)
  case (resolve s)
  show ?case
  proof
    assume "(s, s) \<in> (depends_on services)\<^sup>+"
    then obtain t where st: "(s, t) \<in> depends_on services"
      and ts: "(t, s) \<in> (depends_on services)\<^sup>*"
      by (auto dest: tranclD)
    from st have t: "t \<in> set services" "name t \<in> set (deps_list s)"
      by (simp_all add: depends_on_iff)
    with resolve(2) obtain t' where
      t': "t' \<in> set services" "name t' = name t" "(t', t') \<notin> (depends_on services)\<^sup>+"
      by blast
    from unique_names [OF un t'(1) t(1) t'(2)] t'(3)
    have "(t, t) \<notin> (depends_on services)\<^sup>+" by simp
    moreover from ts st have "(t, t) \<in> (depends_on services)\<^sup>+" by auto
    ultimately show False by contradiction
  qed
qed

lemma unsatisfiable_unresolvable:
  assumes un: "distinct (map name services)"
    and bad: "\<not> acyclic (depends_on services) \<or> \<not> declared services"
  shows "\<exists>s \<in> set services. \<not> resolvable services s"
  using bad
proof
  assume "\<not> acyclic (depends_on services)"
  then obtain x where x: "(x, x) \<in> (depends_on services)\<^sup>+" by (auto simp: acyclic_def)
  then obtain y where "(x, y) \<in> depends_on services" by (auto dest: tranclD)
  then have "x \<in> set services" by (simp add: depends_on_iff)
  moreover from cyclic_unresolvable [OF un, of x] x have "\<not> resolvable services x" by blast
  ultimately show ?thesis by blast
next
  assume "\<not> declared services"
  then obtain s d where s: "s \<in> set services" "d \<in> set (deps_list s)"
    "\<forall>t \<in> set services. name t \<noteq> d"
    by (auto simp: declared_iff)
  have "\<not> resolvable services s"
  proof
    assume "resolvable services s"
    then show False using s(2,3) by (cases rule: resolvable.cases) blast
  qed
  with s(1) show ?thesis by blast
qed

lemma precedes_trans:
  assumes "distinct xs" "precedes xs a b" "precedes xs b c"
  shows "precedes xs a c"
proof -
  from assms(2) obtain i j where 1: "i < length xs" "j < i" "xs ! j = a" "xs ! i = b"
    by (auto simp: precedes_def)
  from assms(3) obtain i' j' where 2: "i' < length xs" "j' < i'" "xs ! j' = b" "xs ! i' = c"
    by (auto simp: precedes_def)
  have l: "j' < length xs" using 2 by simp
  have e: "xs ! i = xs ! j'" using 1 2 by simp
  have "i = j'" using nth_eq_iff_index_eq [OF assms(1) 1(1) l] e by simp
  with 1 2 have "i' < length xs" "j < i'" "xs ! j = a" "xs ! i' = c" by simp_all
  then show ?thesis unfolding precedes_def by blast
qed

lemma deps_first_precedes:
  assumes df: "deps_first out" and so: "set out = set services"
    and un: "distinct (map name services)"
    and dep: "(s, t) \<in> depends_on services"
  shows "precedes out t s"
proof -
  from dep have s: "s \<in> set services" and t: "t \<in> set services"
    and n: "name t \<in> set (deps_list s)"
    by (simp_all add: depends_on_iff)
  from s so have "s \<in> set out" by simp
  then obtain i where i: "i < length out" "out ! i = s"
    unfolding in_set_conv_nth by blast
  with df n have "name t \<in> name ` set (take i out)" by (auto simp: deps_first_def)
  then obtain t' where t': "t' \<in> set (take i out)" "name t' = name t" by auto
  from in_take_nth [OF t'(1)] obtain j where j: "j < i" "j < length out" "out ! j = t'"
    by blast
  have "out ! j \<in> set out" using j(2) by (rule nth_mem)
  then have "t' \<in> set services" unfolding j(3) so .
  from unique_names [OF un this t t'(2)] j have "out ! j = t" by simp
  with i j show ?thesis unfolding precedes_def by blast
qed


text \<open>
  Claim C3: for every table whose names are distinct (a name identifies its service),
  whose \<open>deps\<close> name declared services only and whose dependency relation is acyclic,
  and for every way \<open>set.pop()\<close> may choose, the scheduler yields a sequence and raises
  nothing; the sequence holds every service of the table exactly once; and every service
  stands in it after every service it depends on, directly or through other services.
\<close>

theorem C3_schedule_order:
  assumes un: "distinct (map name services)" and dec: "declared services"
    and acy: "acyclic (depends_on services)"
  shows "\<exists>order. schedule pick services = Inr order
           \<and> distinct order \<and> set order = set services \<and> length order = length services
           \<and> (\<forall>s t. (s, t) \<in> (depends_on services)\<^sup>+ \<longrightarrow> precedes order t s)"
proof -
  obtain out stuck where run: "service_toposort pick services = (out, stuck)"
    by (cases "service_toposort pick services")
  note sets = toposort_sets [OF run]
  have "set stuck = {}" unfolding sets(2) using all_resolvable [OF dec acy] by blast
  then have stuck: "stuck = []" by simp
  have so: "set out = set services" unfolding sets(1) using all_resolvable [OF dec acy] by blast
  have ds: "distinct services" using un by (simp add: distinct_map)
  have "card (set out) = card (set services)" using so by simp
  with sets(3) ds have len: "length out = length services"
    by (simp add: distinct_card)
  have ord: "precedes out t s" if "(s, t) \<in> (depends_on services)\<^sup>+" for s t
    using that
  proof (induction rule: trancl_induct)
    case (base t)
    then show ?case by (rule deps_first_precedes [OF sets(5) so un])
  next
    case (step t u)
    from step.hyps(2) have "precedes out u t" by (rule deps_first_precedes [OF sets(5) so un])
    from precedes_trans [OF sets(3) this step.IH] show ?case .
  qed
  have "schedule pick services = Inr out" using run stuck by (simp add: schedule_def)
  with sets(3) so len ord show ?thesis by blast
qed

lemma chain_table_acyclic: "acyclic (depends_on chain_table)"
proof -
  have "depends_on chain_table = {(svc ''b'' (Some [''a'']), svc ''a'' None)}"
    by (simp add: depends_on_def chain_table_def svc_def deps_list_def)
  moreover have "acyclic ({} :: (Service \<times> Service) set)"
    by (simp add: acyclic_def)
  then have "acyclic {(svc ''b'' (Some [''a'']), svc ''a'' None)}"
    by (simp add: acyclic_insert svc_def)
  ultimately show ?thesis by simp
qed

text \<open>Claim C3 on the table where \<open>b\<close> depends on \<open>a\<close>, declared in the order \<open>b\<close>,
  \<open>a\<close>: the sequence has \<open>a\<close> before \<open>b\<close>.\<close>

theorem C3_schedule_order_witness:
  "\<exists>order. schedule hd chain_table = Inr order
     \<and> distinct order \<and> set order = set chain_table \<and> length order = length chain_table
     \<and> precedes order (svc ''a'' None) (svc ''b'' (Some [''a'']))"
proof -
  have un: "distinct (map name chain_table)" by (simp add: chain_table_def svc_def)
  have dec: "declared chain_table"
    by (simp add: declared_def chain_table_def svc_def deps_list_def)
  have dep: "(svc ''b'' (Some [''a'']), svc ''a'' None) \<in> (depends_on chain_table)\<^sup>+"
    by (rule r_into_trancl) (simp add: depends_on_iff chain_table_def svc_def deps_list_def)
  from C3_schedule_order [OF un dec chain_table_acyclic, of hd] obtain order where
    o: "schedule hd chain_table = Inr order" "distinct order" "set order = set chain_table"
       "length order = length chain_table"
       "\<forall>s t. (s, t) \<in> (depends_on chain_table)\<^sup>+ \<longrightarrow> precedes order t s"
    by blast
  from o(5) dep have "precedes order (svc ''a'' None) (svc ''b'' (Some [''a'']))" by blast
  with o(1-4) show ?thesis by blast
qed

text \<open>
  Claim C4, as stated: the report names each stuck service with its unmet dependency
  names. On the table where \<open>a\<close> has no dependency and \<open>b\<close> depends on \<open>a\<close> and on
  the undeclared \<open>x\<close>, the scheduler yields \<open>a\<close> and is stuck on \<open>b\<close>. The only unmet
  dependency of \<open>b\<close> is \<open>x\<close>, and the line printed for \<open>b\<close> carries the whole tuple
  \<open>('a', 'x')\<close>: \<open>print(s.name, ":", s.deps)\<close>.
\<close>

theorem C4_report_lists_all_deps:
  "schedule hd typo_table
     = Inl (Exception ''Unable to satisfy service dependencies'',
            [UnsatisfiedHeader, Unsatisfied ''b'' (Some [''a'', ''x''])])
   \<and> unmet_deps (fst (service_toposort hd typo_table)) (svc ''b'' (Some [''a'', ''x''])) = [''x'']"
  by (simp add: schedule_def service_toposort_def toposort_loop.simps pop_def newly_ready_def
        stuck_report_def unmet_deps_def typo_table_def svc_def no_deps_def deps_list_def Let_def)

text \<open>
  Claim C4, amended: for every table whose names are distinct and that has a dependency
  cycle or a name in a \<open>deps\<close> that no service of the table carries, and for every way
  \<open>set.pop()\<close> may choose, the scheduler raises the exception \<open>Unable to satisfy service
  dependencies\<close> (the failure called DependencyUnsatisfiable) after printing the warning
  and one line for each stuck service, with its name and its whole \<open>deps\<close> tuple. The
  stuck services are exactly the services of the table that are not resolvable by removing
  again and again a service whose dependencies are all resolved; the services yielded
  before the exception are exactly the resolvable ones.
\<close>

theorem C4_unsatisfiable:
  assumes un: "distinct (map name services)"
    and bad: "\<not> acyclic (depends_on services) \<or> \<not> declared services"
  shows "\<exists>yielded stuck. service_toposort pick services = (yielded, stuck)
           \<and> schedule pick services
               = Inl (Exception ''Unable to satisfy service dependencies'',
                      UnsatisfiedHeader # map (\<lambda>s. Unsatisfied (name s) (deps s)) stuck)
           \<and> stuck \<noteq> [] \<and> distinct stuck
           \<and> set stuck = {s \<in> set services. \<not> resolvable services s}
           \<and> set yielded = {s \<in> set services. resolvable services s}"
proof -
  obtain out stuck where run: "service_toposort pick services = (out, stuck)"
    by (cases "service_toposort pick services")
  note sets = toposort_sets [OF run]
  from unsatisfiable_unresolvable [OF un bad] obtain s where
    "s \<in> set services" "\<not> resolvable services s" by blast
  then have "s \<in> set stuck" unfolding sets(2) by simp
  then have ne: "stuck \<noteq> []" by auto
  with run have "schedule pick services
               = Inl (Exception ''Unable to satisfy service dependencies'',
                      UnsatisfiedHeader # map (\<lambda>s. Unsatisfied (name s) (deps s)) stuck)"
    by (simp add: schedule_def stuck_report_def)
  with run ne sets show ?thesis by blast
qed

lemma cycle_table_cyclic: "\<not> acyclic (depends_on cycle_table)"
proof -
  let ?a = "svc ''a'' (Some [''b''])" and ?b = "svc ''b'' (Some [''a''])"
  have "(?a, ?b) \<in> depends_on cycle_table" "(?b, ?a) \<in> depends_on cycle_table"
    by (simp_all add: depends_on_iff cycle_table_def svc_def deps_list_def)
  then have "(?a, ?a) \<in> (depends_on cycle_table)\<^sup>+" by (rule trancl_into_trancl2 [OF _ r_into_trancl])
  then show ?thesis unfolding acyclic_def by blast
qed

text \<open>Claim C4, amended, on the table of the cycle and on the table of the undeclared
  name.\<close>

theorem C4_unsatisfiable_witness:
  "(\<exists>yielded stuck. service_toposort hd cycle_table = (yielded, stuck)
       \<and> schedule hd cycle_table
           = Inl (Exception ''Unable to satisfy service dependencies'',
                  UnsatisfiedHeader # map (\<lambda>s. Unsatisfied (name s) (deps s)) stuck)
       \<and> stuck \<noteq> []
       \<and> set stuck = {s \<in> set cycle_table. \<not> resolvable cycle_table s})
   \<and> (\<exists>yielded stuck. service_toposort hd typo_table = (yielded, stuck)
       \<and> stuck \<noteq> []
       \<and> set stuck = {s \<in> set typo_table. \<not> resolvable typo_table s})"
proof -
  have un: "distinct (map name cycle_table)" by (simp add: cycle_table_def svc_def)
  have un2: "distinct (map name typo_table)" by (simp add: typo_table_def svc_def)
  have nd: "\<not> declared typo_table"
    by (simp add: declared_def typo_table_def svc_def deps_list_def)
  from C4_unsatisfiable [OF un disjI1 [OF cycle_table_cyclic], of hd]
  have 1: "\<exists>yielded stuck. service_toposort hd cycle_table = (yielded, stuck)
       \<and> schedule hd cycle_table
           = Inl (Exception ''Unable to satisfy service dependencies'',
                  UnsatisfiedHeader # map (\<lambda>s. Unsatisfied (name s) (deps s)) stuck)
       \<and> stuck \<noteq> []
       \<and> set stuck = {s \<in> set cycle_table. \<not> resolvable cycle_table s}"
    by blast
  from C4_unsatisfiable [OF un2 disjI2 [OF nd], of hd]
  have 2: "\<exists>yielded stuck. service_toposort hd typo_table = (yielded, stuck)
       \<and> stuck \<noteq> []
       \<and> set stuck = {s \<in> set typo_table. \<not> resolvable typo_table s}"
    by blast
  from 1 2 show ?thesis by (rule conjI)
qed

end
